theory Spec2Isabelle
  imports Complex_Main "HOL-Library.Log_Nat" "HOL-Library.Sublist"
begin

section \<open>JavaScript objects used as dictionaries\<close>

text \<open>
  The results of the generators, of lodash's \<open>groupBy\<close> and of the partitioner are plain
  objects (\<open>{}\<close>) whose own properties are written with \<open>memo[key] = value\<close>. An object
  is modelled by the list of its own properties in creation order; every key occurs once.
  A property whose value is \<open>undefined\<close> is still a property: where a value may be
  \<open>undefined\<close> the value type is an \<open>option\<close>.
\<close>

type_synonym 'v js_object = "(string \<times> 'v) list"

definition js_get :: "'v js_object \<Rightarrow> string \<Rightarrow> 'v option" where
  "js_get obj k = map_of obj k"

text \<open>
  Creating or overwriting an own property (\<open>Object.defineProperty\<close>, lodash's
  \<open>baseAssignValue\<close>): an existing property keeps its position, a new one is appended.
\<close>

fun js_define :: "'v js_object \<Rightarrow> string \<Rightarrow> 'v \<Rightarrow> 'v js_object" where
  "js_define [] k v = [(k, v)]"
| "js_define ((k', v') # rest) k v =
     (if k' = k then (k, v) # rest else (k', v') # js_define rest k v)"

text \<open>
  The assignment \<open>obj[k] = v\<close> on an object created by \<open>{}\<close>. The name \<open>__proto__\<close> is
  an accessor inherited from \<open>Object.prototype\<close>: assigning to it replaces the prototype
  (or does nothing) and creates no own property. Every other name is defined or
  overwritten.
\<close>

definition js_assign :: "'v js_object \<Rightarrow> string \<Rightarrow> 'v \<Rightarrow> 'v js_object" where
  "js_assign obj k v = (if k = ''__proto__'' then obj else js_define obj k v)"

text \<open>
  Own-property enumeration (\<open>Object.keys\<close>, used by lodash's \<open>keys\<close>, and by \<open>reduce\<close>
  and \<open>each\<close> over an object): first the keys that are array indices (canonical decimal
  numerals below \<open>2^32 - 1\<close>) in ascending numeric order, then all other keys in creation
  order. \<open>index_value\<close> reads a string of digits as a number.
\<close>

definition is_digit :: "char \<Rightarrow> bool" where
  "is_digit c = (c \<in> set ''0123456789'')"

definition index_value :: "string \<Rightarrow> int" where
  "index_value s = foldl (\<lambda>n c. 10 * n + (of_char c - 48)) 0 s"

definition is_array_index :: "string \<Rightarrow> bool" where
  "is_array_index s =
     (s \<noteq> [] \<and> list_all is_digit s \<and> (hd s \<noteq> CHR ''0'' \<or> s = ''0'')
      \<and> index_value s < 4294967295)"

definition js_entries :: "'v js_object \<Rightarrow> (string \<times> 'v) list" where
  "js_entries obj =
     sort_key (\<lambda>e. index_value (fst e)) (filter (\<lambda>e. is_array_index (fst e)) obj)
     @ filter (\<lambda>e. \<not> is_array_index (fst e)) obj"

definition js_keys :: "'v js_object \<Rightarrow> string list" where
  "js_keys obj = map fst (js_entries obj)"

definition js_values :: "'v js_object \<Rightarrow> 'v list" where
  "js_values obj = map snd (js_entries obj)"

text \<open>Reading \<open>xs[i]\<close> from an array: \<open>undefined\<close> (\<open>None\<close>) out of range.\<close>

definition js_index :: "'a list \<Rightarrow> nat \<Rightarrow> 'a option" where
  "js_index xs i = (if i < length xs then Some (xs ! i) else None)"

section \<open>Data model\<close>

text \<open>
  The interfaces are declared in \<open>./types\<close>. A credential's \<open>type\<close> is the string the
  code compares with \<open>'facebook'\<close> and \<open>'instagram'\<close>; \<open>searchOptions\<close> is passed through
  unread and stays a type parameter. Strings are lists of characters.
\<close>

record IUserCredentials =
  type :: string
  username :: string
  password :: string

record 'o ISearchRawData =
  companyName :: string
  productNames :: "string list"
  incidentKeywords :: "string list"
  searchOptions :: 'o

text \<open>The values stored by the two generators.\<close>

datatype 'o by_incident =
  ByIncident (companyName: string) (searchString: string) (searchOptions: 'o)

datatype 'o by_company_or_product =
  ByCompanyOrProduct (companyName: string) (incidentKeywords: "string list")
    (searchString: string) (searchOptions: 'o)

section \<open>Keys and storage names\<close>

definition getNameForStorageStateByUserCredential :: "IUserCredentials \<Rightarrow> string" where
  "getNameForStorageStateByUserCredential userCredential =
     ''storageStateFor['' @ type userCredential @ ''][''
       @ username userCredential @ ''].json''"

definition getKeyByUserCredential :: "IUserCredentials \<Rightarrow> string" where
  "getKeyByUserCredential userCredential =
     type userCredential @ ''-'' @ username userCredential"

section \<open>Session provider\<close>

text \<open>
  The browser engine, \<open>JSON.parse\<close> and the two platform login routines are external.
  \<open>newContext None\<close> is \<open>browser.newContext()\<close>, the bare session, and
  \<open>newContext (Some j)\<close> is \<open>browser.newContext({ storageState: j })\<close>. A login
  routine drives the session it is given and resolves to the serialized storage state
  together with that session as the login left it, or rejects (\<open>None\<close>).
  \<open>JSON.parse\<close> throws on malformed text (\<open>None\<close>).
\<close>

record ('c, 'j) engine =
  newContext :: "'j option \<Rightarrow> 'c"
  JSON_parse :: "string \<Rightarrow> 'j option"
  getStorageStateAfterFacebookLogin :: "IUserCredentials \<Rightarrow> 'c \<Rightarrow> (string \<times> 'c) option"
  getStorageStateAfterInstagramLogin :: "IUserCredentials \<Rightarrow> 'c \<Rightarrow> (string \<times> 'c) option"

datatype error = SyntaxError | LoginRejected

text \<open>
  Stable storage is a map from file names to contents. \<open>fs.readFile\<close> rejects when the
  file cannot be read; the rejection is caught and \<open>storageState\<close> stays \<open>''\<close>.
  The function returns the session and the storage it leaves behind; what it prints on
  the console is not part of the state.
\<close>

type_synonym files = "string \<rightharpoonup> string"

definition getBrowserContextWithLoggedInStoregeState ::
  "('c, 'j) engine \<Rightarrow> IUserCredentials \<Rightarrow> files \<Rightarrow> error + ('c \<times> files)" where
  "getBrowserContextWithLoggedInStoregeState browser userCredential fs =
     (let context = newContext browser None;
          name = getNameForStorageStateByUserCredential userCredential;
          storageState = (case fs name of None \<Rightarrow> [] | Some text \<Rightarrow> text)
      in if length storageState > 0 then
           (case JSON_parse browser storageState of
              None \<Rightarrow> Inl SyntaxError
            | Some j \<Rightarrow> Inr (newContext browser (Some j), fs))
         else if type userCredential = ''facebook'' then
           (case getStorageStateAfterFacebookLogin browser userCredential context of
              None \<Rightarrow> Inl LoginRejected
            | Some (state, context') \<Rightarrow> Inr (context', fs(name \<mapsto> state)))
         else if type userCredential = ''instagram'' then
           (case getStorageStateAfterInstagramLogin browser userCredential context of
              None \<Rightarrow> Inl LoginRejected
            | Some (state, context') \<Rightarrow> Inr (context', fs(name \<mapsto> state)))
         else Inr (context, fs))"

text \<open>
  The keyed mapping of \<open>getBrowserContextsByUserCredentialsKey\<close>: \<open>browserContexts\<close> is
  the array \<open>Promise.all\<close> resolved to, one session per credential in list order, and
  the \<open>reduce\<close> stores \<open>browserContexts[i]\<close> under the key of the \<open>i\<close>-th credential.
\<close>

definition browserContextsByUserCredentials ::
  "IUserCredentials list \<Rightarrow> 'c list \<Rightarrow> 'c option js_object" where
  "browserContextsByUserCredentials userCredentials browserContexts =
     foldl (\<lambda>memo (i, item).
              js_assign memo (getKeyByUserCredential item) (js_index browserContexts i))
       [] (enumerate 0 userCredentials)"

section \<open>Search-string generators\<close>

text \<open>Variant A: one entry per first-level word and incident keyword.\<close>

definition firstSearchWords :: "'o ISearchRawData \<Rightarrow> string list" where
  "firstSearchWords item =
     (if ISearchRawData.productNames item \<noteq> []
      then map (\<lambda>productName. ISearchRawData.companyName item @ '' '' @ productName)
             (ISearchRawData.productNames item)
      else [ISearchRawData.companyName item])"

definition bySearchRawData_step ::
  "'o by_incident js_object \<Rightarrow> 'o ISearchRawData \<Rightarrow> 'o by_incident js_object" where
  "bySearchRawData_step memo item =
     foldl (\<lambda>memo partOfSearch.
              foldl (\<lambda>memo incidentKeyword.
                       js_assign memo (partOfSearch @ '' '' @ incidentKeyword)
                         (ByIncident (ISearchRawData.companyName item)
                            (partOfSearch @ '' '' @ incidentKeyword)
                            (ISearchRawData.searchOptions item)))
                memo (ISearchRawData.incidentKeywords item))
       memo (firstSearchWords item)"

definition generateSearchStringsBySearchRawData ::
  "'o ISearchRawData list \<Rightarrow> 'o by_incident js_object" where
  "generateSearchStringsBySearchRawData searchRawData =
     foldl bySearchRawData_step [] searchRawData"

text \<open>Variant B: one entry per first-level word, the company name always among them.\<close>

definition firstSearchWordsCompanyOrProducts :: "'o ISearchRawData \<Rightarrow> string list" where
  "firstSearchWordsCompanyOrProducts item =
     (if ISearchRawData.productNames item \<noteq> []
      then [ISearchRawData.companyName item] @ ISearchRawData.productNames item
      else [ISearchRawData.companyName item])"

definition companyOrProducts_step ::
  "'o by_company_or_product js_object \<Rightarrow> 'o ISearchRawData
     \<Rightarrow> 'o by_company_or_product js_object" where
  "companyOrProducts_step memo item =
     foldl (\<lambda>memo searchString.
              js_assign memo searchString
                (ByCompanyOrProduct (ISearchRawData.companyName item)
                   (ISearchRawData.incidentKeywords item) searchString
                   (ISearchRawData.searchOptions item)))
       memo (firstSearchWordsCompanyOrProducts item)"

definition generateSearchStringsCompanyOrProductsBySearchRawData ::
  "'o ISearchRawData list \<Rightarrow> 'o by_company_or_product js_object" where
  "generateSearchStringsCompanyOrProductsBySearchRawData searchRawData =
     foldl companyOrProducts_step [] searchRawData"

section \<open>Type of a credential key\<close>

text \<open>\<open>key.includes(part)\<close>: \<open>part\<close> occurs somewhere in \<open>key\<close>.\<close>

fun js_includes :: "string \<Rightarrow> string \<Rightarrow> bool" where
  "js_includes [] part = (part = [])"
| "js_includes (c # cs) part = (prefix part (c # cs) \<or> js_includes cs part)"

definition getTypeForBrowserContextByUserCredentialsKey :: "string \<Rightarrow> string option" where
  "getTypeForBrowserContextByUserCredentialsKey key =
     (if js_includes key ''facebook-'' then Some ''facebook''
      else if js_includes key ''instagram-'' then Some ''instagram''
      else None)"

section \<open>Work partitioner\<close>

text \<open>
  lodash's \<open>groupBy(userCredentials, 'type')\<close>: an object with one property per type,
  holding the credentials of that type in list order.
\<close>

definition groupBy_type :: "IUserCredentials list \<Rightarrow> IUserCredentials list js_object" where
  "groupBy_type userCredentials =
     foldl (\<lambda>result value.
              case js_get result (type value) of
                Some members \<Rightarrow> js_define result (type value) (members @ [value])
              | None \<Rightarrow> js_define result (type value) [value])
       [] userCredentials"

text \<open>
  lodash's \<open>chunk(array, size)\<close>, the size written \<open>n\<close>: \<open>ceil(length / n)\<close> slices
  \<open>array.slice(i * n, (i + 1) * n)\<close>, and no slice at all when the array is empty
  or \<open>n < 1\<close>.
\<close>

definition chunk :: "'a list \<Rightarrow> nat \<Rightarrow> 'a list list" where
  "chunk array n =
     (if array = [] \<or> n < 1 then []
      else map (\<lambda>i. take n (drop (i * n) array))
             [0 ..< (length array + n - 1) div n])"

text \<open>
  \<open>Math.ceil(totalSize / sizeOfParts)\<close> on two array lengths. The quotient of two
  integers below \<open>2^32\<close> is rounded to a double that is an integer only when the
  quotient is, so the result is the exact ceiling.
\<close>

definition ceil_div :: "nat \<Rightarrow> nat \<Rightarrow> nat" where
  "ceil_div totalSize sizeOfParts = (totalSize + sizeOfParts - 1) div sizeOfParts"

definition searchStringsByChanks :: "nat \<Rightarrow> string list \<Rightarrow> string list list" where
  "searchStringsByChanks sizeOfParts searchStringsKeys =
     (let totalSize = length searchStringsKeys
      in if sizeOfParts \<ge> totalSize then [searchStringsKeys]
         else chunk searchStringsKeys (ceil_div totalSize sizeOfParts))"

definition byBrowserContexts_step ::
  "string list \<Rightarrow> string list option js_object \<Rightarrow> IUserCredentials list
     \<Rightarrow> string list option js_object" where
  "byBrowserContexts_step searchStringsKeys memo userCredentialsByType =
     foldl (\<lambda>memo (index, userCredentialByType).
              js_assign memo (getKeyByUserCredential userCredentialByType)
                (js_index
                   (searchStringsByChanks (length userCredentialsByType) searchStringsKeys)
                   index))
       memo (enumerate 0 userCredentialsByType)"

definition getSearchStringsByBrowserContexts ::
  "IUserCredentials list \<Rightarrow> 'd js_object \<Rightarrow> string list option js_object" where
  "getSearchStringsByBrowserContexts userCredentials searchStrings =
     foldl (byBrowserContexts_step (js_keys searchStrings)) []
       (js_values (groupBy_type userCredentials))"

section \<open>Numbers\<close>

text \<open>
  A JavaScript number is an IEEE 754 double. \<open>Finite m e\<close> is the double of value
  \<open>m * 2^e\<close>; every finite double has such a form with \<open>|m| < 2^53\<close> and
  \<open>-1074 \<le> e \<le> 971\<close>, which \<open>is_double\<close> requires. The sign of zero is not kept.
\<close>

datatype double = Finite int int | PosInf | NegInf | NaN

definition finite_value :: "int \<Rightarrow> int \<Rightarrow> real" where
  "finite_value m e = of_int m * 2 powi e"

definition is_double :: "double \<Rightarrow> bool" where
  "is_double x =
     (case x of Finite m e \<Rightarrow> \<bar>m\<bar> < 2 ^ 53 \<and> - 1074 \<le> e \<and> e \<le> 971 | _ \<Rightarrow> True)"

text \<open>The comparisons \<open><\<close> and \<open><=\<close> of two numbers; every comparison with \<open>NaN\<close> is false.\<close>

fun double_less :: "double \<Rightarrow> double \<Rightarrow> bool" where
  "double_less NaN y = False"
| "double_less x NaN = False"
| "double_less (Finite m e) (Finite m' e') = (finite_value m e < finite_value m' e')"
| "double_less (Finite m e) PosInf = True"
| "double_less (Finite m e) NegInf = False"
| "double_less PosInf y = False"
| "double_less NegInf y = (y \<noteq> NegInf)"

fun double_le :: "double \<Rightarrow> double \<Rightarrow> bool" where
  "double_le NaN y = False"
| "double_le x NaN = False"
| "double_le (Finite m e) (Finite m' e') = (finite_value m e \<le> finite_value m' e')"
| "double_le (Finite m e) PosInf = True"
| "double_le (Finite m e) NegInf = False"
| "double_le PosInf y = (y = PosInf)"
| "double_le NegInf y = True"

text \<open>
  Rounding to nearest, ties to even. \<open>round_nearest_even a s\<close> is \<open>a / 2^s\<close> rounded
  to an integer, for \<open>a \<ge> 0\<close>. \<open>round_double m e\<close> is the double nearest to the exact
  value \<open>m * 2^e\<close>: the value keeps 53 significant bits, or fewer below the smallest
  normal number, where the spacing of the doubles is \<open>2^-1074\<close>; a value that rounds to
  \<open>2^1024\<close> or more overflows to an infinity.
\<close>

definition round_nearest_even :: "int \<Rightarrow> nat \<Rightarrow> int" where
  "round_nearest_even a s =
     (let q = a div 2 ^ s; r = a mod 2 ^ s
      in if 2 ^ s < 2 * r \<or> (2 * r = 2 ^ s \<and> odd q) then q + 1 else q)"

definition round_double :: "int \<Rightarrow> int \<Rightarrow> double" where
  "round_double m e =
     (let a = \<bar>m\<bar>;
          s = max (bitlen a - 53) (- 1074 - e);
          q = (if s \<le> 0 then a else round_nearest_even a (nat s));
          e' = (if s \<le> 0 then e else e + s)
      in if 0 \<le> e' \<and> 2 ^ 1024 \<le> q * 2 ^ nat e'
         then (if m < 0 then NegInf else PosInf)
         else Finite (sgn m * q) e')"

text \<open>The product \<open>x * y\<close> of two numbers.\<close>

fun double_times :: "double \<Rightarrow> double \<Rightarrow> double" where
  "double_times NaN y = NaN"
| "double_times x NaN = NaN"
| "double_times (Finite m e) (Finite m' e') = round_double (m * m') (e + e')"
| "double_times (Finite m e) PosInf = (if m = 0 then NaN else if 0 < m then PosInf else NegInf)"
| "double_times (Finite m e) NegInf = (if m = 0 then NaN else if 0 < m then NegInf else PosInf)"
| "double_times PosInf (Finite m e) = (if m = 0 then NaN else if 0 < m then PosInf else NegInf)"
| "double_times NegInf (Finite m e) = (if m = 0 then NaN else if 0 < m then NegInf else PosInf)"
| "double_times PosInf PosInf = PosInf"
| "double_times PosInf NegInf = NegInf"
| "double_times NegInf PosInf = NegInf"
| "double_times NegInf NegInf = PosInf"

text \<open>\<open>Math.floor\<close>: the largest integer not above a finite number; other numbers unchanged.\<close>

fun Math_floor :: "double \<Rightarrow> double" where
  "Math_floor (Finite m e) =
     Finite (if 0 \<le> e then m * 2 ^ nat e else m div 2 ^ nat (- e)) 0"
| "Math_floor x = x"

section \<open>Pacing utility\<close>

text \<open>
  \<open>Math.floor(Math.random() * max)\<close>, with the draw of \<open>Math.random()\<close> made the
  argument \<open>random\<close> and \<open>max\<close> written \<open>bound\<close>; its default, a constant of
  \<open>./constants\<close>, is left to the caller.
\<close>

definition getRandomDelayTimeInSecound :: "double \<Rightarrow> double \<Rightarrow> double" where
  "getRandomDelayTimeInSecound random bound = Math_floor (double_times random bound)"

section \<open>A list of assignments\<close>

text \<open>
  Every loop of the program that fills an object performs a sequence of assignments
  \<open>memo[k] = v\<close>. \<open>js_assign_list\<close> performs such a sequence, given as a list of pairs.
\<close>

definition js_assign_list :: "'v js_object \<Rightarrow> (string \<times> 'v) list \<Rightarrow> 'v js_object" where
  "js_assign_list obj ws = foldl (\<lambda>memo (k, v). js_assign memo k v) obj ws"

text \<open>The assignments one investigation record contributes, in the order of the loops.\<close>

definition bySearchRawData_writes :: "'o ISearchRawData \<Rightarrow> (string \<times> 'o by_incident) list" where
  "bySearchRawData_writes item =
     concat (map (\<lambda>partOfSearch.
                    map (\<lambda>incidentKeyword.
                           (partOfSearch @ '' '' @ incidentKeyword,
                            ByIncident (ISearchRawData.companyName item)
                              (partOfSearch @ '' '' @ incidentKeyword)
                              (ISearchRawData.searchOptions item)))
                      (ISearchRawData.incidentKeywords item))
               (firstSearchWords item))"

definition companyOrProducts_writes ::
  "'o ISearchRawData \<Rightarrow> (string \<times> 'o by_company_or_product) list" where
  "companyOrProducts_writes item =
     map (\<lambda>searchString.
            (searchString,
             ByCompanyOrProduct (ISearchRawData.companyName item)
               (ISearchRawData.incidentKeywords item) searchString
               (ISearchRawData.searchOptions item)))
       (firstSearchWordsCompanyOrProducts item)"

text \<open>The assignments the partitioner makes for one platform group.\<close>

definition byBrowserContexts_writes ::
  "string list \<Rightarrow> IUserCredentials list \<Rightarrow> (string \<times> string list option) list" where
  "byBrowserContexts_writes searchStringsKeys userCredentialsByType =
     map (\<lambda>(index, userCredentialByType).
            (getKeyByUserCredential userCredentialByType,
             js_index
               (searchStringsByChanks (length userCredentialsByType) searchStringsKeys)
               index))
       (enumerate 0 userCredentialsByType)"

section \<open>Properties of objects\<close>

lemma map_of_js_define:
  "map_of (js_define obj k v) k' = (if k' = k then Some v else map_of obj k')"
  by (induction obj) auto

lemma keys_js_define: "fst ` set (js_define obj k v) = insert k (fst ` set obj)"
proof (induction obj)
  case Nil
  then show ?case by simp
next
  case (Cons e obj)
  obtain k' v' where e: "e = (k', v')" by (cases e)
  show ?case
  proof (cases "k' = k")
    case True
    then show ?thesis by (simp add: e)
  next
    case False
    then show ?thesis using Cons.IH by (simp add: e insert_commute)
  qed
qed

lemma js_get_js_assign:
  "js_get (js_assign obj k v) k' =
     (if k' = k \<and> k \<noteq> ''__proto__'' then Some v else js_get obj k')"
  by (simp add: js_get_def js_assign_def map_of_js_define)

lemma js_assign_list_Nil: "js_assign_list obj [] = obj"
  by (simp add: js_assign_list_def)

lemma js_assign_list_snoc:
  "js_assign_list obj (ws @ [(k, v)]) = js_assign (js_assign_list obj ws) k v"
  by (simp add: js_assign_list_def)

lemma js_get_js_assign_list:
  "js_get (js_assign_list obj ws) k =
     (if k = ''__proto__'' then js_get obj k
      else case map_of (rev ws) k of Some v \<Rightarrow> Some v | None \<Rightarrow> js_get obj k)"
proof (induction ws rule: rev_induct)
  case Nil
  then show ?case by (simp add: js_assign_list_Nil)
next
  case (snoc w ws)
  obtain k' v' where w: "w = (k', v')" by (cases w)
  show ?case
  proof (cases "k = ''__proto__''")
    case True
    then show ?thesis using snoc by (auto simp: w js_assign_list_snoc js_get_js_assign)
  next
    case False
    then show ?thesis using snoc by (auto simp: w js_assign_list_snoc js_get_js_assign)
  qed
qed


lemma distinct_js_define:
  "distinct (map fst obj) \<Longrightarrow> distinct (map fst (js_define obj k v))"
proof (induction obj)
  case Nil
  then show ?case by simp
next
  case (Cons e obj)
  obtain k' v' where e: "e = (k', v')" by (cases e)
  show ?case
  proof (cases "k' = k")
    case True
    then show ?thesis using Cons.prems by (simp add: e)
  next
    case False
    have "k' \<notin> fst ` set (js_define obj k v)"
      using Cons.prems False by (simp add: e keys_js_define)
    then have "k' \<notin> set (map fst (js_define obj k v))" by simp
    moreover have "distinct (map fst (js_define obj k v))"
      using Cons by simp
    ultimately show ?thesis using False by (simp add: e)
  qed
qed

lemma keys_js_assign:
  "fst ` set (js_assign obj k v) =
     (if k = ''__proto__'' then fst ` set obj else insert k (fst ` set obj))"
  by (simp add: js_assign_def keys_js_define)

lemma distinct_js_assign:
  "distinct (map fst obj) \<Longrightarrow> distinct (map fst (js_assign obj k v))"
  by (simp add: js_assign_def distinct_js_define)

lemma js_assign_list_Cons:
  "js_assign_list obj ((k, v) # ws) = js_assign_list (js_assign obj k v) ws"
  by (simp add: js_assign_list_def)

lemma js_assign_list_append:
  "js_assign_list obj (ws @ ws') = js_assign_list (js_assign_list obj ws) ws'"
  by (simp add: js_assign_list_def)

lemma keys_js_assign_list:
  "fst ` set (js_assign_list obj ws) = fst ` set obj \<union> (fst ` set ws - {''__proto__''})"
proof (induction ws rule: rev_induct)
  case Nil
  then show ?case by (simp add: js_assign_list_Nil)
next
  case (snoc w ws)
  obtain k' v' where w: "w = (k', v')" by (cases w)
  show ?case
    using snoc by (auto simp: w js_assign_list_snoc keys_js_assign)
qed

lemma distinct_js_assign_list:
  "distinct (map fst obj) \<Longrightarrow> distinct (map fst (js_assign_list obj ws))"
proof (induction ws rule: rev_induct)
  case Nil
  then show ?case by (simp add: js_assign_list_Nil)
next
  case (snoc w ws)
  obtain k' v' where w: "w = (k', v')" by (cases w)
  show ?case
    using snoc by (simp add: w js_assign_list_snoc distinct_js_assign)
qed

lemma set_js_define:
  "(k, v) \<in> set (js_define obj k' v') \<Longrightarrow> (k, v) \<in> set obj \<or> (k, v) = (k', v')"
  by (induction obj) (auto split: if_splits)

lemma js_assign_list_entries:
  "(k, v) \<in> set (js_assign_list obj ws) \<Longrightarrow> (k, v) \<in> set obj \<or> (k, v) \<in> set ws"
proof (induction ws rule: rev_induct)
  case Nil
  then show ?case by (simp add: js_assign_list_Nil)
next
  case (snoc w ws)
  obtain k' v' where w: "w = (k', v')" by (cases w)
  from snoc.prems have "(k, v) \<in> set (js_assign_list obj ws) \<or> (k, v) = (k', v')"
    using set_js_define [of k v "js_assign_list obj ws" k' v']
    by (auto simp: w js_assign_list_snoc js_assign_def split: if_splits)
  with snoc.IH show ?case by (auto simp: w)
qed

lemma set_js_entries: "set (js_entries obj) = set obj"
  by (auto simp: js_entries_def)

lemma set_js_keys: "set (js_keys obj) = fst ` set obj"
  by (simp add: js_keys_def set_js_entries)

lemma js_get_Some_iff:
  "distinct (map fst obj) \<Longrightarrow> js_get obj k = Some v \<longleftrightarrow> (k, v) \<in> set obj"
  by (simp add: js_get_def)

lemma js_get_None_iff: "js_get obj k = None \<longleftrightarrow> k \<notin> fst ` set obj"
  by (simp add: js_get_def map_of_eq_None_iff)

lemma space_not_proto: "a @ '' '' @ b \<noteq> ''__proto__''"
proof
  assume "a @ '' '' @ b = ''__proto__''"
  then have "CHR '' '' \<in> set ''__proto__''"
    by (metis in_set_conv_decomp append_Cons)
  then show False by simp
qed

lemma key_not_proto: "getKeyByUserCredential c \<noteq> ''__proto__''"
proof
  assume "getKeyByUserCredential c = ''__proto__''"
  then have "type c @ ''-'' @ username c = ''__proto__''"
    by (simp add: getKeyByUserCredential_def)
  then have "CHR ''-'' \<in> set ''__proto__''"
    by (metis in_set_conv_decomp append_Cons)
  then show False by simp
qed

section \<open>Session provider: the keyed mapping\<close>

lemma map_of_rev_last:
  assumes j: "j < length ws" and k: "fst (ws ! j) = k"
    and later: "\<forall>m. j < m \<and> m < length ws \<longrightarrow> fst (ws ! m) \<noteq> k"
  shows "map_of (rev ws) k = Some (snd (ws ! j))"
proof -
  have split: "ws = take j ws @ ws ! j # drop (Suc j) ws"
    using j by (rule id_take_nth_drop)
  have "k \<notin> fst ` set (drop (Suc j) ws)"
  proof
    assume "k \<in> fst ` set (drop (Suc j) ws)"
    then obtain e where e: "e \<in> set (drop (Suc j) ws)" and fe: "fst e = k" by auto
    from e obtain n where n: "n < length (drop (Suc j) ws)" and en: "drop (Suc j) ws ! n = e"
      by (auto simp: in_set_conv_nth)
    from n have lt: "Suc j + n < length ws" by simp
    from en n have wse: "ws ! (Suc j + n) = e" by simp
    have "fst (ws ! (Suc j + n)) \<noteq> k"
      using later [rule_format, of "Suc j + n"] lt by simp
    then show False using wse fe by simp
  qed
  then have none: "map_of (rev (drop (Suc j) ws)) k = None"
    by (simp add: map_of_eq_None_iff)
  have "map_of (rev ws) k
      = map_of (rev (drop (Suc j) ws) @ (ws ! j) # rev (take j ws)) k"
    by (subst split) simp
  also have "\<dots> = Some (snd (ws ! j))"
    using none k by (cases "ws ! j") (simp add: map_add_def)
  finally show ?thesis .
qed

lemma foldl_js_assign_pairs:
  "foldl (\<lambda>memo (i, item). js_assign memo (f item) (g i)) obj xs
     = js_assign_list obj (map (\<lambda>(i, item). (f item, g i)) xs)"
  by (induction xs arbitrary: obj) (auto simp: js_assign_list_def)

lemma browserContextsByUserCredentials_writes:
  "browserContextsByUserCredentials userCredentials browserContexts =
     js_assign_list []
       (map (\<lambda>(i, item). (getKeyByUserCredential item, js_index browserContexts i))
          (enumerate 0 userCredentials))"
  unfolding browserContextsByUserCredentials_def by (rule foldl_js_assign_pairs)

text \<open>
  Claim C6. When two credentials of the list have the same identity key
  (\<open>type + "-" + username\<close>), the mapping built from the list holds under that key the
  session of the later one: of the credentials with that key, the last in list order
  overwrites all earlier ones.
\<close>

theorem identity_key_collision_later_wins:
  assumes len: "length browserContexts = length userCredentials"
    and ij: "i < j" and j: "j < length userCredentials"
    and same: "getKeyByUserCredential (userCredentials ! i)
                 = getKeyByUserCredential (userCredentials ! j)"
    and last: "\<forall>m. j < m \<and> m < length userCredentials \<longrightarrow>
                 getKeyByUserCredential (userCredentials ! m)
                   \<noteq> getKeyByUserCredential (userCredentials ! j)"
  shows "js_get (browserContextsByUserCredentials userCredentials browserContexts)
           (getKeyByUserCredential (userCredentials ! i))
         = Some (Some (browserContexts ! j))"
proof -
  let ?ws = "map (\<lambda>(i, item). (getKeyByUserCredential item, js_index browserContexts i))
               (enumerate 0 userCredentials)"
  let ?k = "getKeyByUserCredential (userCredentials ! j)"
  have nth: "?ws ! m = (getKeyByUserCredential (userCredentials ! m), js_index browserContexts m)"
    if "m < length userCredentials" for m
    using that by (simp add: nth_enumerate_eq)
  have nthj: "?ws ! j = (?k, js_index browserContexts j)"
    by (rule nth [OF j])
  have "map_of (rev ?ws) ?k = Some (snd (?ws ! j))"
  proof (rule map_of_rev_last)
    show "j < length ?ws" using j by simp
    show "fst (?ws ! j) = ?k" by (simp only: nthj fst_conv)
    show "\<forall>m. j < m \<and> m < length ?ws \<longrightarrow> fst (?ws ! m) \<noteq> ?k"
    proof (intro allI impI)
      fix m
      assume m: "j < m \<and> m < length ?ws"
      then have m': "m < length userCredentials" by simp
      have a: "fst (?ws ! m) = getKeyByUserCredential (userCredentials ! m)"
        by (simp only: nth [OF m'] fst_conv)
      have b: "getKeyByUserCredential (userCredentials ! m) \<noteq> ?k"
        using last [rule_format, of m] m m' by simp
      show "fst (?ws ! m) \<noteq> ?k" unfolding a by (rule b)
    qed
  qed
  then have "map_of (rev ?ws) ?k = Some (Some (browserContexts ! j))"
    using j len by (simp only: nthj snd_conv) (simp add: js_index_def)
  then have "js_get (js_assign_list [] ?ws) ?k = Some (Some (browserContexts ! j))"
    by (simp add: js_get_js_assign_list key_not_proto)
  then show ?thesis
    by (simp add: browserContextsByUserCredentials_writes same)
qed

theorem identity_key_collision_later_wins_witness:
  "length [1::nat, 2] = length [\<lparr>type = ''facebook'', username = ''ann'', password = ''p''\<rparr>,
                         \<lparr>type = ''facebook'', username = ''ann'', password = ''q''\<rparr>]
   \<and> (0::nat) < 1
   \<and> js_get (browserContextsByUserCredentials
         [\<lparr>type = ''facebook'', username = ''ann'', password = ''p''\<rparr>,
          \<lparr>type = ''facebook'', username = ''ann'', password = ''q''\<rparr>] [1::nat, 2])
        ''facebook-ann'' = Some (Some 2)"
  using identity_key_collision_later_wins
    [of "[1::nat, 2]" "[\<lparr>type = ''facebook'', username = ''ann'', password = ''p''\<rparr>,
                         \<lparr>type = ''facebook'', username = ''ann'', password = ''q''\<rparr>]" 0 1]
  by (simp add: getKeyByUserCredential_def)

section \<open>Powers of two\<close>

lemma p2_add: "(2::real) powi (a + b) = 2 powi a * 2 powi b"
  by (rule power_int_add) simp

lemma p2_pos: "0 < (2::real) powi a"
  by simp

lemma p2_nat: "0 \<le> a \<Longrightarrow> (2::real) powi a = of_int (2 ^ nat a)"
  by (simp add: power_int_nonneg_exp)

lemma p2_less: "a < b \<Longrightarrow> (2::real) powi a < 2 powi b"
  by (rule power_int_strict_increasing) simp_all

lemma p2_le: "a \<le> b \<Longrightarrow> (2::real) powi a \<le> 2 powi b"
  by (rule power_int_increasing) simp_all

lemma p2_less_imp: "(2::real) powi a < 2 powi b \<Longrightarrow> a < b"
proof (rule ccontr)
  assume lt: "(2::real) powi a < 2 powi b" and "\<not> a < b"
  then have "b \<le> a" by simp
  then have "(2::real) powi b \<le> 2 powi a" by (rule p2_le)
  with lt show False by simp
qed

lemma finite_value_nonneg: "0 \<le> m \<Longrightarrow> 0 \<le> finite_value m e"
  by (simp add: finite_value_def)

lemma finite_value_less: "m < m' \<Longrightarrow> finite_value m e < finite_value m' e"
  by (simp add: finite_value_def)

lemma finite_value_shift:
  "0 \<le> d \<Longrightarrow> finite_value m (e + d) = finite_value (m * 2 ^ nat d) e"
  by (simp add: finite_value_def p2_add p2_nat mult.commute mult.left_commute)

text \<open>A double below \<open>1\<close> is at most \<open>1 - 2^-53\<close>.\<close>

lemma below_one:
  assumes m: "\<bar>m\<bar> < 2 ^ 53" and lt: "finite_value m e < 1"
  shows "finite_value m e \<le> 1 - 2 powi (- 53)"
proof (cases "- 53 \<le> e")
  case True
  let ?N = "m * 2 ^ nat (e + 53)"
  have "finite_value m e = finite_value m (- 53 + (e + 53))" by simp
  also have "\<dots> = finite_value ?N (- 53)"
    using True by (subst finite_value_shift) simp_all
  finally have v: "finite_value m e = of_int ?N * 2 powi (- 53)"
    by (simp add: finite_value_def)
  have "of_int ?N * 2 powi (- 53) < (1::real)" using lt v by simp
  then have "of_int ?N < (2::real) ^ 53"
    by (simp add: power_int_minus field_simps)
  then have "?N < 2 ^ 53" by (metis of_int_less_iff of_int_numeral of_int_power)
  then have "?N \<le> 2 ^ 53 - 1" by simp
  then have "(of_int ?N :: real) \<le> of_int (2 ^ 53 - 1)" by (simp only: of_int_le_iff)
  then have "of_int ?N * 2 powi (- 53) \<le> (of_int (2 ^ 53 - 1) :: real) * 2 powi (- 53)"
    by (rule mult_right_mono) simp
  also have "\<dots> = 1 - 2 powi (- 53)" by (simp add: power_int_minus field_simps)
  finally show ?thesis using v by simp
next
  case False
  then have e: "e \<le> - 54" by simp
  have "finite_value m e \<le> \<bar>finite_value m e\<bar>" by simp
  also have "\<dots> = of_int \<bar>m\<bar> * 2 powi e" by (simp add: finite_value_def abs_mult)
  also have "\<dots> \<le> of_int \<bar>m\<bar> * 2 powi (- 54)"
    using e by (intro mult_left_mono p2_le) simp_all
  also have "\<dots> \<le> of_int (2 ^ 53) * 2 powi (- 54)"
    using m by (intro mult_right_mono) simp_all
  also have "\<dots> \<le> 1 - 2 powi (- 53)" by (simp add: power_int_minus)
  finally show ?thesis .
qed

text \<open>\<open>Math.floor\<close> of a finite number is the floor of its value.\<close>

lemma Math_floor_value: "Math_floor (Finite m e) = Finite \<lfloor>finite_value m e\<rfloor> 0"
proof (cases "0 \<le> e")
  case True
  then have "finite_value m e = of_int (m * 2 ^ nat e)"
    by (simp add: finite_value_def p2_nat)
  then have "\<lfloor>finite_value m e\<rfloor> = m * 2 ^ nat e" by (simp only: floor_of_int)
  with True show ?thesis by simp
next
  case False
  then have "e = - int (nat (- e))" by simp
  then have "(2::real) powi e = 1 / of_int (2 ^ nat (- e))"
    by (metis power_int_minus_divide power_int_of_nat of_int_numeral of_int_power)
  then have "finite_value m e = of_int m / of_int (2 ^ nat (- e))"
    by (simp add: finite_value_def)
  then have "\<lfloor>finite_value m e\<rfloor> = m div 2 ^ nat (- e)"
    by (simp only: floor_divide_of_int_eq)
  with False show ?thesis by simp
qed

text \<open>
  The rounding on known products: \<open>0.1 * 3\<close> is \<open>0.30000000000000004\<close>, the largest
  double doubled is \<open>Infinity\<close>, half the smallest double is a tie and rounds to zero,
  and \<open>0.7 * 10\<close> is a tie that rounds up to \<open>7\<close>.
\<close>

lemma double_times_examples:
  "double_times (Finite 3602879701896397 (- 55)) (Finite 3 0)
     = Finite 5404319552844596 (- 54)"
  "double_times (Finite (2 ^ 53 - 1) 971) (Finite 2 0) = PosInf"
  "double_times (Finite 1 (- 1074)) (Finite 1 (- 1)) = Finite 0 (- 1074)"
  "double_times (Finite 6305039478318694 (- 53)) (Finite 10 0) = Finite (7 * 2 ^ 50) (- 50)"
  by code_simp+

section \<open>Rounding a product below its bound\<close>

lemma bitlen_lower:
  assumes "0 < a"
  shows "2 powi (bitlen a - 1) \<le> (of_int a :: real)"
proof -
  from assms have b: "1 \<le> bitlen a"
    using bitlen_eq_zero_iff [of a] bitlen_nonneg [of a] by linarith
  from bitlen_bounds [OF assms] have "2 ^ nat (bitlen a - 1) \<le> a" by simp
  then have "(of_int (2 ^ nat (bitlen a - 1)) :: real) \<le> of_int a"
    by (simp only: of_int_le_iff)
  then show ?thesis using b by (simp add: p2_nat)
qed

lemma finite_value_below_p2:
  assumes "\<bar>M\<bar> < 2 ^ 53"
  shows "finite_value M E < 2 powi (53 + E)"
proof -
  from assms have "M < 2 ^ 53" by simp
  then have "finite_value M E < finite_value (2 ^ 53) E" by (rule finite_value_less)
  also have "\<dots> = 2 powi (53 + E)" by (simp add: finite_value_def p2_add)
  finally show ?thesis .
qed

lemma finite_value_less_imp: "finite_value m e < finite_value m' e \<Longrightarrow> m < m'"
  by (simp add: finite_value_def)

lemma round_nearest_even_cases:
  "round_nearest_even a n = a div 2 ^ n
   \<or> (round_nearest_even a n = a div 2 ^ n + 1 \<and> 2 ^ n \<le> 2 * (a mod 2 ^ n))"
  by (auto simp: round_nearest_even_def Let_def)

lemma div_less_of_less_mult:
  assumes "a < k * d" and "0 < (d::int)"
  shows "a div d < k"
proof (rule ccontr)
  assume "\<not> a div d < k"
  then have "k \<le> a div d" by simp
  then have le: "k * d \<le> a div d * d" using assms(2) by (simp add: mult_right_mono)
  have "0 \<le> a mod d" using assms(2) by simp
  moreover have "a div d * d + a mod d = a" by simp
  ultimately have "a div d * d \<le> a" by linarith
  with le assms(1) show False by linarith
qed

lemma round_up_stays_below:
  assumes a: "0 \<le> a" and s: "0 < s" and sE: "s \<le> E - e"
    and big: "2 powi (e + s + 52) < finite_value M E"
    and x: "finite_value a e \<le> finite_value M E * (1 - 2 powi (- 53))"
  shows "0 \<le> round_nearest_even a (nat s)
       \<and> finite_value (round_nearest_even a (nat s)) (e + s) < finite_value M E"
proof -
  let ?n = "nat s"
  let ?d = "(2::int) ^ ?n"
  let ?k = "M * 2 ^ nat (E - e - s)"
  let ?Mx = "finite_value M E"
  have d: "0 < ?d" by simp
  have Mpos: "0 < ?Mx" using big p2_pos [of "e + s + 52"] by linarith
  have xlt: "finite_value a e < ?Mx"
  proof -
    have "0 < ?Mx * 2 powi (- 53)" using Mpos by simp
    then have "?Mx * (1 - 2 powi (- 53)) < ?Mx" by (simp add: algebra_simps)
    with x show ?thesis by linarith
  qed
  have Mk: "?Mx = finite_value ?k (e + s)"
  proof -
    have "?Mx = finite_value M ((e + s) + (E - e - s))" by simp
    also have "\<dots> = finite_value ?k (e + s)"
      using sE by (subst finite_value_shift) simp_all
    finally show ?thesis .
  qed
  have shift: "finite_value m (e + s) = finite_value (m * ?d) e" for m
    using s by (subst finite_value_shift) simp_all
  have "finite_value a e < finite_value (?k * ?d) e"
    using xlt Mk shift [of ?k] by simp
  then have "a < ?k * ?d" by (rule finite_value_less_imp)
  then have q0k: "a div ?d < ?k" using d by (rule div_less_of_less_mult)
  have q0: "0 \<le> a div ?d" using a d by (simp add: pos_imp_zdiv_nonneg_iff)
  from round_nearest_even_cases [of a ?n] show ?thesis
  proof
    assume r: "round_nearest_even a ?n = a div ?d"
    have "finite_value (a div ?d) (e + s) < finite_value ?k (e + s)"
      using q0k by (rule finite_value_less)
    with r q0 Mk show ?thesis by simp
  next
    assume "round_nearest_even a ?n = a div ?d + 1 \<and> ?d \<le> 2 * (a mod ?d)"
    then have r: "round_nearest_even a ?n = a div ?d + 1" and up: "?d \<le> 2 * (a mod ?d)"
      by simp_all
    have "a div ?d + 1 < ?k"
    proof (rule ccontr)
      assume "\<not> a div ?d + 1 < ?k"
      with q0k have k: "?k = a div ?d + 1" by simp
      define q where "q = a div ?d"
      define c where "c = a mod ?d"
      define t where "t = ?d"
      have "q * t + c = a" unfolding q_def c_def t_def by (rule div_mult_mod_eq)
      moreover have "t \<le> 2 * c" using up unfolding c_def t_def .
      ultimately have "(2 * (q + 1) - 1) * t \<le> 2 * a" by (simp add: algebra_simps)
      then have "(2 * ?k - 1) * ?d \<le> 2 * a" unfolding k q_def t_def .
      then have "(of_int ((2 * ?k - 1) * ?d) :: real) \<le> of_int (2 * a)"
        by (simp only: of_int_le_iff)
      then have "of_int ((2 * ?k - 1) * ?d) * 2 powi e \<le> (of_int (2 * a) :: real) * 2 powi e"
        by (rule mult_right_mono) simp
      then have "finite_value ((2 * ?k - 1) * ?d) e \<le> finite_value (2 * a) e"
        by (simp only: finite_value_def)
      then have "finite_value (2 * ?k - 1) (e + s) \<le> finite_value (2 * a) e"
        by (simp only: shift)
      moreover have "finite_value (2 * k' - 1) u = 2 * finite_value k' u - 2 powi u" for k' u
        by (simp add: finite_value_def algebra_simps)
      then have "finite_value (2 * ?k - 1) (e + s) = 2 * ?Mx - 2 powi (e + s)"
        by (simp only: Mk)
      moreover have "finite_value (2 * a) e = 2 * finite_value a e"
        by (simp add: finite_value_def)
      ultimately have "2 * ?Mx - 2 powi (e + s) \<le> 2 * finite_value a e" by simp
      with x have "2 * ?Mx - 2 powi (e + s) \<le> 2 * (?Mx * (1 - 2 powi (- 53)))" by linarith
      then have "?Mx * (2 * 2 powi (- 53)) \<le> 2 powi (e + s)" by (simp add: algebra_simps)
      then have "?Mx * (2 * 2 powi (- 53)) * 2 powi 52 \<le> 2 powi (e + s) * 2 powi 52"
        by (rule mult_right_mono) simp
      moreover have "(2 * 2 powi (- 53)) * 2 powi 52 = (1::real)"
        by (simp add: power_int_minus)
      moreover have "(2::real) powi (e + s) * 2 powi 52 = 2 powi (e + s + 52)"
        by (simp add: p2_add)
      ultimately have "?Mx \<le> 2 powi (e + s + 52)" by (simp add: mult.assoc)
      with big show False by simp
    qed
    then have "finite_value (a div ?d + 1) (e + s) < finite_value ?k (e + s)"
      by (rule finite_value_less)
    with r q0 Mk show ?thesis by simp
  qed
qed

lemma round_below:
  assumes a: "0 \<le> a" and M: "\<bar>M\<bar> < 2 ^ 53" and E1: "- 1074 \<le> E" and E2: "E \<le> 971"
    and one: "1 \<le> finite_value M E"
    and x: "finite_value a e \<le> finite_value M E * (1 - 2 powi (- 53))"
  shows "\<exists>q e'. round_double a e = Finite q e' \<and> 0 \<le> q
           \<and> finite_value q e' < finite_value M E"
proof -
  let ?Mx = "finite_value M E"
  define s where "s = max (bitlen a - 53) (- 1074 - e)"
  define q where "q = (if s \<le> 0 then a else round_nearest_even a (nat s))"
  define e' where "e' = (if s \<le> 0 then e else e + s)"
  have xlt: "finite_value a e < ?Mx"
  proof -
    have "0 < ?Mx * 2 powi (- 53)" using one by simp
    then have "?Mx * (1 - 2 powi (- 53)) < ?Mx" by (simp add: algebra_simps)
    with x show ?thesis by linarith
  qed
  have top: "?Mx < 2 powi 1024"
  proof -
    have "?Mx < 2 powi (53 + E)" using M by (rule finite_value_below_p2)
    also have "\<dots> \<le> 2 powi 1024" using E2 by (intro p2_le) simp
    finally show ?thesis .
  qed
  have core: "0 \<le> q \<and> finite_value q e' < ?Mx"
  proof (cases "s \<le> 0")
    case True
    then show ?thesis using a xlt by (simp add: q_def e'_def)
  next
    case False
    then have s: "0 < s" by simp
    have "s \<le> E - e \<and> 2 powi (e + s + 52) < ?Mx"
    proof (cases "- 1074 - e \<le> bitlen a - 53")
      case True
      then have sb: "s = bitlen a - 53" by (simp add: s_def)
      with s have "bitlen a \<noteq> 0" by simp
      then have apos: "0 < a" using bitlen_eq_zero_iff [of a] by simp
      have "2 powi (e + s + 52) = 2 powi (bitlen a - 1) * (2::real) powi e"
        by (simp add: sb p2_add [symmetric] algebra_simps)
      also have "\<dots> \<le> of_int a * 2 powi e"
        using bitlen_lower [OF apos] by (intro mult_right_mono) simp_all
      also have "\<dots> = finite_value a e" by (simp add: finite_value_def)
      finally have low: "2 powi (e + s + 52) \<le> finite_value a e" .
      with xlt have big: "2 powi (e + s + 52) < ?Mx" by linarith
      have "?Mx < 2 powi (53 + E)" using M by (rule finite_value_below_p2)
      with big have "(2::real) powi (e + s + 52) < 2 powi (53 + E)" by linarith
      then have "e + s + 52 < 53 + E" by (rule p2_less_imp)
      with big show ?thesis by simp
    next
      case False
      then have sb: "s = - 1074 - e" by (simp add: s_def)
      have "(2::real) powi (e + s + 52) < 2 powi 0"
        by (rule p2_less) (simp add: sb)
      with one have "2 powi (e + s + 52) < ?Mx" by simp
      with sb E1 show ?thesis by simp
    qed
    then have "0 \<le> round_nearest_even a (nat s)
             \<and> finite_value (round_nearest_even a (nat s)) (e + s) < ?Mx"
      using a s x by (intro round_up_stays_below) simp_all
    with s show ?thesis by (simp add: q_def e'_def)
  qed
  have no_overflow: "\<not> (0 \<le> e' \<and> 2 ^ 1024 \<le> q * 2 ^ nat e')"
  proof
    assume ov: "0 \<le> e' \<and> 2 ^ 1024 \<le> q * 2 ^ nat e'"
    then have "(of_int (2 ^ 1024) :: real) \<le> of_int (q * 2 ^ nat e')"
      by (simp only: of_int_le_iff)
    moreover have "finite_value q e' = of_int (q * 2 ^ nat e')"
      using ov by (simp add: finite_value_def p2_nat)
    ultimately have "2 powi 1024 \<le> finite_value q e'" by simp
    with core top show False by linarith
  qed
  have abs_a: "\<bar>a\<bar> = a" using a by simp
  have result: "round_double a e = Finite (sgn a * q) e'"
    using no_overflow
    unfolding round_double_def Let_def abs_a s_def [symmetric] q_def [symmetric]
      e'_def [symmetric]
    by simp
  have "0 \<le> sgn a * q \<and> finite_value (sgn a * q) e' < ?Mx"
  proof (cases "a = 0")
    case True
    then show ?thesis using one by (simp add: finite_value_def)
  next
    case False
    with a have "sgn a = 1" by simp
    with core show ?thesis by simp
  qed
  with result show ?thesis by blast
qed

section \<open>Pacing utility\<close>

text \<open>
  Claim C8, as stated, fails: \<open>Infinity\<close> is a bound \<open>max \<ge> 1\<close>, and for the draw
  \<open>0.5\<close> the result \<open>Math.floor(0.5 * Infinity)\<close> is \<open>Infinity\<close>, which is not below
  \<open>max\<close>.
\<close>

theorem infinite_bound_counterexample:
  "is_double (Finite 1 (- 1)) \<and> is_double PosInf
   \<and> double_le (Finite 1 0) PosInf
   \<and> double_le (Finite 0 0) (Finite 1 (- 1)) \<and> double_less (Finite 1 (- 1)) (Finite 1 0)
   \<and> getRandomDelayTimeInSecound (Finite 1 (- 1)) PosInf = PosInf
   \<and> \<not> double_less (getRandomDelayTimeInSecound (Finite 1 (- 1)) PosInf) PosInf"
  by (simp add: is_double_def finite_value_def getRandomDelayTimeInSecound_def)

text \<open>
  Claim C8, amended. For every finite bound \<open>max \<ge> 1\<close> and every random draw \<open>r\<close> in
  \<open>[0, 1)\<close>, the result \<open>Math.floor(r * max)\<close>, the product rounded as a double, is an
  integer in \<open>[0, max)\<close>; for \<open>max = 1\<close> the result is \<open>0\<close>.
\<close>

theorem getRandomDelayTimeInSecound_range:
  assumes r: "is_double random" and b: "is_double bound"
    and one: "double_le (Finite 1 0) bound" and fin: "bound \<noteq> PosInf"
    and r0: "double_le (Finite 0 0) random" and r1: "double_less random (Finite 1 0)"
  shows "double_le (Finite 0 0) (getRandomDelayTimeInSecound random bound)
       \<and> double_less (getRandomDelayTimeInSecound random bound) bound
       \<and> (\<exists>k. getRandomDelayTimeInSecound random bound = Finite k 0)
       \<and> (double_le bound (Finite 1 0) \<longrightarrow>
            getRandomDelayTimeInSecound random bound = Finite 0 0)"
proof -
  from r0 r1 obtain m e where random: "random = Finite m e"
    by (cases random) simp_all
  from one fin obtain M E where bound: "bound = Finite M E"
    by (cases bound) simp_all
  let ?Mx = "finite_value M E"
  from r have m: "\<bar>m\<bar> < 2 ^ 53" by (simp add: random is_double_def)
  from b have M: "\<bar>M\<bar> < 2 ^ 53" and E1: "- 1074 \<le> E" and E2: "E \<le> 971"
    by (simp_all add: bound is_double_def)
  from one have Mx: "1 \<le> ?Mx" by (simp add: bound finite_value_def)
  from r0 have v0: "0 \<le> finite_value m e" by (simp add: random finite_value_def)
  from r1 have v1: "finite_value m e < 1" by (simp add: random finite_value_def)
  have m0: "0 \<le> m"
  proof (rule ccontr)
    assume "\<not> 0 \<le> m"
    then have "(of_int m :: real) < 0" by simp
    then have "of_int m * (2::real) powi e < 0" by (simp add: mult_less_0_iff)
    with v0 show False by (simp add: finite_value_def)
  qed
  have M0: "0 \<le> M"
  proof (rule ccontr)
    assume "\<not> 0 \<le> M"
    then have "(of_int M :: real) < 0" by simp
    then have "of_int M * (2::real) powi E < 0" by (simp add: mult_less_0_iff)
    with Mx show False by (simp add: finite_value_def)
  qed
  have a: "0 \<le> m * M" using m0 M0 by simp
  have prod: "finite_value (m * M) (e + E) = finite_value m e * ?Mx"
    by (simp add: finite_value_def p2_add)
  have "finite_value m e \<le> 1 - 2 powi (- 53)" using m v1 by (rule below_one)
  then have "finite_value m e * ?Mx \<le> (1 - 2 powi (- 53)) * ?Mx"
    using Mx by (intro mult_right_mono) simp_all
  then have x: "finite_value (m * M) (e + E) \<le> ?Mx * (1 - 2 powi (- 53))"
    unfolding prod by (simp only: mult.commute)
  from round_below [OF a M E1 E2 Mx x]
  obtain q e' where rd: "round_double (m * M) (e + E) = Finite q e'"
    and q: "0 \<le> q" and lt: "finite_value q e' < ?Mx"
    by blast
  let ?k = "\<lfloor>finite_value q e'\<rfloor>"
  have res: "getRandomDelayTimeInSecound random bound = Finite ?k 0"
    by (simp add: getRandomDelayTimeInSecound_def random bound rd Math_floor_value
        del: Math_floor.simps)
  have "0 \<le> finite_value q e'" using q by (rule finite_value_nonneg)
  then have k0: "0 \<le> ?k" by simp
  have "of_int ?k \<le> finite_value q e'" by (rule of_int_floor_le)
  with lt have klt: "of_int ?k < ?Mx" by linarith
  have val: "finite_value ?k 0 = of_int ?k" by (simp add: finite_value_def)
  have 1: "double_le (Finite 0 0) (getRandomDelayTimeInSecound random bound)"
    unfolding res using k0 by (simp add: finite_value_def)
  have 2: "double_less (getRandomDelayTimeInSecound random bound) bound"
    unfolding res unfolding bound using klt by (simp add: val)
  have 4: "getRandomDelayTimeInSecound random bound = Finite 0 0"
    if "double_le bound (Finite 1 0)"
  proof -
    from that have "?Mx \<le> 1" by (simp add: bound finite_value_def)
    with klt have "of_int ?k < (1::real)" by linarith
    then have "?k < 1" by (simp only: of_int_less_1_iff)
    with k0 have "?k = 0" by linarith
    then show ?thesis by (simp only: res)
  qed
  from 1 2 res 4 show ?thesis by blast
qed

theorem getRandomDelayTimeInSecound_range_witness:
  "is_double (Finite 6305039478318694 (- 53)) \<and> is_double (Finite 10 0)
   \<and> double_le (Finite 1 0) (Finite 10 0) \<and> Finite 10 0 \<noteq> PosInf
   \<and> double_le (Finite 0 0) (Finite 6305039478318694 (- 53))
   \<and> double_less (Finite 6305039478318694 (- 53)) (Finite 1 0)
   \<and> getRandomDelayTimeInSecound (Finite 6305039478318694 (- 53)) (Finite 10 0) = Finite 7 0
   \<and> double_less (getRandomDelayTimeInSecound (Finite 6305039478318694 (- 53)) (Finite 10 0))
        (Finite 10 0)
   \<and> double_le (Finite 1 0) (Finite 1 0)
   \<and> getRandomDelayTimeInSecound (Finite 6305039478318694 (- 53)) (Finite 1 0) = Finite 0 0"
proof -
  have r: "is_double (Finite 6305039478318694 (- 53))" by (simp add: is_double_def)
  have b: "is_double (Finite 10 0)" and b1: "is_double (Finite 1 0)"
    by (simp_all add: is_double_def)
  have one: "double_le (Finite 1 0) (Finite 10 0)"
    and one1: "double_le (Finite 1 0) (Finite 1 0)"
    by (simp_all add: finite_value_def)
  have fin: "Finite 10 0 \<noteq> PosInf" and fin1: "Finite 1 0 \<noteq> PosInf" by simp_all
  have r0: "double_le (Finite 0 0) (Finite 6305039478318694 (- 53))"
    by (simp add: finite_value_def)
  have r1: "double_less (Finite 6305039478318694 (- 53)) (Finite 1 0)"
    by (simp add: finite_value_def)
  have v: "getRandomDelayTimeInSecound (Finite 6305039478318694 (- 53)) (Finite 10 0)
             = Finite 7 0"
    by code_simp
  from getRandomDelayTimeInSecound_range [OF r b one fin r0 r1]
  have lt: "double_less
              (getRandomDelayTimeInSecound (Finite 6305039478318694 (- 53)) (Finite 10 0))
              (Finite 10 0)"
    by blast
  from getRandomDelayTimeInSecound_range [OF r b1 one1 fin1 r0 r1] one1
  have z: "getRandomDelayTimeInSecound (Finite 6305039478318694 (- 53)) (Finite 1 0)
             = Finite 0 0"
    by blast
  from r b one fin r0 r1 v lt one1 z show ?thesis by blast
qed

section \<open>Type of a credential key\<close>

lemma js_includes_sublist: "js_includes key part \<longleftrightarrow> sublist part key"
  by (induction key) (auto simp: sublist_Cons_right)

text \<open>
  Claim C10. The classifier decides by containment, not by prefix: a key that contains
  \<open>facebook-\<close> anywhere is classified \<open>facebook\<close>, also the key of an instagram
  credential whose username contains \<open>facebook-\<close>; otherwise a key that contains
  \<open>instagram-\<close> anywhere is classified \<open>instagram\<close>; every other key has no type.
\<close>

theorem getTypeForBrowserContextByUserCredentialsKey_containment:
  "getTypeForBrowserContextByUserCredentialsKey (p @ ''facebook-'' @ s) = Some ''facebook''
   \<and> getTypeForBrowserContextByUserCredentialsKey
        (getKeyByUserCredential
           \<lparr>type = ''instagram'', username = p @ ''facebook-'' @ s, password = pw\<rparr>)
      = Some ''facebook''
   \<and> getTypeForBrowserContextByUserCredentialsKey key =
       (if sublist ''facebook-'' key then Some ''facebook''
        else if sublist ''instagram-'' key then Some ''instagram''
        else None)"
proof -
  have "sublist ''facebook-'' (p @ ''facebook-'' @ s)" by (rule sublist_appendI)
  moreover have "sublist ''facebook-'' ((''instagram-'' @ p) @ ''facebook-'' @ s)"
    by (rule sublist_appendI)
  ultimately show ?thesis
    by (simp add: getTypeForBrowserContextByUserCredentialsKey_def js_includes_sublist
        getKeyByUserCredential_def)
qed

section \<open>Session provider: unknown platform\<close>

text \<open>
  Claim C7. For a credential whose type is neither \<open>facebook\<close> nor \<open>instagram\<close>, and
  for which no non-empty persisted state was read (the file is missing or empty), the
  session provider returns the bare session and leaves the storage as it was.
\<close>

theorem unknown_type_bare_session:
  assumes "type userCredential \<noteq> ''facebook''" and "type userCredential \<noteq> ''instagram''"
    and "fs (getNameForStorageStateByUserCredential userCredential) = None
         \<or> fs (getNameForStorageStateByUserCredential userCredential) = Some []"
  shows "getBrowserContextWithLoggedInStoregeState browser userCredential fs
         = Inr (newContext browser None, fs)"
  using assms by (auto simp: getBrowserContextWithLoggedInStoregeState_def)

theorem unknown_type_bare_session_witness:
  "type \<lparr>type = ''twitter'', username = ''ann'', password = ''p''\<rparr> \<noteq> ''facebook''
   \<and> type \<lparr>type = ''twitter'', username = ''ann'', password = ''p''\<rparr> \<noteq> ''instagram''
   \<and> (Map.empty :: files)
        (getNameForStorageStateByUserCredential
           \<lparr>type = ''twitter'', username = ''ann'', password = ''p''\<rparr>) = None
   \<and> getBrowserContextWithLoggedInStoregeState
        \<lparr>newContext = (\<lambda>j. j), JSON_parse = (\<lambda>t. Some t),
         getStorageStateAfterFacebookLogin = (\<lambda>c x. None),
         getStorageStateAfterInstagramLogin = (\<lambda>c x. None)\<rparr>
        \<lparr>type = ''twitter'', username = ''ann'', password = ''p''\<rparr> Map.empty
      = Inr (None, Map.empty)"
  using unknown_type_bare_session
    [of "\<lparr>type = ''twitter'', username = ''ann'', password = ''p''\<rparr>" Map.empty
        "\<lparr>newContext = (\<lambda>j. j), JSON_parse = (\<lambda>t. Some t),
          getStorageStateAfterFacebookLogin = (\<lambda>c x. None),
          getStorageStateAfterInstagramLogin = (\<lambda>c x. None)\<rparr>"]
  by simp

section \<open>Search-string generators as lists of assignments\<close>

lemma foldl_js_assign_each:
  "foldl (\<lambda>memo x. js_assign memo (f x) (g x)) obj xs
     = js_assign_list obj (map (\<lambda>x. (f x, g x)) xs)"
  by (induction xs arbitrary: obj) (auto simp: js_assign_list_def)

lemma foldl_js_assign_list_concat:
  "foldl (\<lambda>memo x. js_assign_list memo (h x)) obj xs
     = js_assign_list obj (concat (map h xs))"
  by (induction xs arbitrary: obj) (auto simp: js_assign_list_Nil js_assign_list_append)

lemma bySearchRawData_step_writes:
  "bySearchRawData_step memo item = js_assign_list memo (bySearchRawData_writes item)"
  by (simp add: bySearchRawData_step_def bySearchRawData_writes_def
      foldl_js_assign_each foldl_js_assign_list_concat)

lemma generateSearchStringsBySearchRawData_writes:
  "generateSearchStringsBySearchRawData searchRawData
     = js_assign_list [] (concat (map bySearchRawData_writes searchRawData))"
proof -
  have eq: "bySearchRawData_step = (\<lambda>memo item. js_assign_list memo (bySearchRawData_writes item))"
    by (intro ext) (rule bySearchRawData_step_writes)
  show ?thesis
    unfolding generateSearchStringsBySearchRawData_def eq
    by (rule foldl_js_assign_list_concat)
qed

lemma companyOrProducts_step_writes:
  "companyOrProducts_step memo item = js_assign_list memo (companyOrProducts_writes item)"
  by (simp add: companyOrProducts_step_def companyOrProducts_writes_def foldl_js_assign_each)

lemma generateSearchStringsCompanyOrProductsBySearchRawData_writes:
  "generateSearchStringsCompanyOrProductsBySearchRawData searchRawData
     = js_assign_list [] (concat (map companyOrProducts_writes searchRawData))"
proof -
  have eq: "companyOrProducts_step
          = (\<lambda>memo item. js_assign_list memo (companyOrProducts_writes item))"
    by (intro ext) (rule companyOrProducts_step_writes)
  show ?thesis
    unfolding generateSearchStringsCompanyOrProductsBySearchRawData_def eq
    by (rule foldl_js_assign_list_concat)
qed

text \<open>When every assigned value is determined by its key, so is the value found.\<close>

lemma map_of_determined:
  assumes "\<forall>(k, v) \<in> set ws. v = F k" and "k \<in> fst ` set ws"
  shows "map_of ws k = Some (F k)"
proof -
  from assms(2) obtain v where v: "map_of ws k = Some v"
    by (cases "map_of ws k") (auto simp: map_of_eq_None_iff)
  then have "(k, v) \<in> set ws" by (rule map_of_SomeD)
  with assms(1) have "v = F k" by auto
  with v show ?thesis by simp
qed

lemma js_get_assigned_determined:
  assumes "\<forall>(k, v) \<in> set ws. v = F k" and "k \<in> fst ` set ws" and "k \<noteq> ''__proto__''"
  shows "js_get (js_assign_list obj ws) k = Some (F k)"
proof -
  have "\<forall>(k, v) \<in> set (rev ws). v = F k" using assms(1) by simp
  moreover have "k \<in> fst ` set (rev ws)" using assms(2) by simp
  ultimately have "map_of (rev ws) k = Some (F k)" by (rule map_of_determined)
  then show ?thesis using assms(3) by (simp add: js_get_js_assign_list)
qed

lemma js_get_not_assigned:
  assumes "k \<notin> fst ` set ws"
  shows "js_get (js_assign_list obj ws) k = js_get obj k"
proof -
  have "k \<notin> fst ` set (rev ws)" using assms by simp
  then have "map_of (rev ws) k = None" by (simp add: map_of_eq_None_iff)
  then show ?thesis by (simp add: js_get_js_assign_list)
qed

lemma nested_writes_keys:
  "fst ` set (concat (map (\<lambda>p. map (\<lambda>k. (f p k, g p k)) ks) ps))
     = {f p k | p k. p \<in> set ps \<and> k \<in> set ks}"
  by (auto simp: image_iff) blast+

lemma bySearchRawData_writes_keys:
  "fst ` set (bySearchRawData_writes item) =
     {p @ '' '' @ k | p k. p \<in> set (firstSearchWords item)
                          \<and> k \<in> set (ISearchRawData.incidentKeywords item)}"
  unfolding bySearchRawData_writes_def by (rule nested_writes_keys)

lemma bySearchRawData_writes_values:
  "\<forall>(k, v) \<in> set (bySearchRawData_writes item).
     v = ByIncident (ISearchRawData.companyName item) k (ISearchRawData.searchOptions item)"
  by (auto simp: bySearchRawData_writes_def)

lemma space_not_proto_Cons: "a @ CHR '' '' # b \<noteq> ''__proto__''"
  using space_not_proto [of a b] by simp

lemma bySearchRawData_writes_no_proto:
  "fst ` set (bySearchRawData_writes item) - {''__proto__''}
     = fst ` set (bySearchRawData_writes item)"
  by (auto simp: bySearchRawData_writes_def space_not_proto_Cons)

lemma js_keys_js_assign_list:
  "set (js_keys (js_assign_list obj ws))
     = set (js_keys obj) \<union> (fst ` set ws - {''__proto__''})"
  by (simp only: set_js_keys keys_js_assign_list)

lemma firstSearchWords_empty:
  "ISearchRawData.productNames item = [] \<Longrightarrow>
     firstSearchWords item = [ISearchRawData.companyName item]"
  by (simp add: firstSearchWords_def)

lemma bySearchRawData_keys_without_products:
  assumes "ISearchRawData.productNames item = []"
  shows "fst ` set (bySearchRawData_writes item)
       = {ISearchRawData.companyName item @ '' '' @ k | k.
            k \<in> set (ISearchRawData.incidentKeywords item)}"
  unfolding bySearchRawData_writes_keys firstSearchWords_empty [OF assms] by simp

lemma bySearchRawData_step_keys:
  "set (js_keys (bySearchRawData_step memo item))
     = set (js_keys memo) \<union> fst ` set (bySearchRawData_writes item)"
  by (simp only: bySearchRawData_step_writes js_keys_js_assign_list
      bySearchRawData_writes_no_proto)

section \<open>Variant A of the generator\<close>

text \<open>
  Claim C3. For an investigation record whose \<open>productNames\<close> is empty, variant A
  produces for that record exactly the query strings \<open>companyName + " " + k\<close>, one for
  each incident keyword \<open>k\<close>, each mapped to a descriptor with that record's
  \<open>companyName\<close> and \<open>searchOptions\<close>: run on the record alone the result has exactly
  these keys, and within a longer run the record's step adds exactly these keys to the
  result so far and leaves every other entry as it was.
\<close>

theorem by_incident_without_products:
  assumes "ISearchRawData.productNames item = []"
  shows
    "set (js_keys (generateSearchStringsBySearchRawData [item]))
       = {ISearchRawData.companyName item @ '' '' @ k | k.
            k \<in> set (ISearchRawData.incidentKeywords item)}
     \<and> set (js_keys (bySearchRawData_step memo item))
       = set (js_keys memo)
         \<union> {ISearchRawData.companyName item @ '' '' @ k | k.
              k \<in> set (ISearchRawData.incidentKeywords item)}
     \<and> (\<forall>k \<in> set (ISearchRawData.incidentKeywords item).
          js_get (bySearchRawData_step memo item) (ISearchRawData.companyName item @ '' '' @ k)
            = Some (ByIncident (ISearchRawData.companyName item)
                      (ISearchRawData.companyName item @ '' '' @ k)
                      (ISearchRawData.searchOptions item)))
     \<and> (\<forall>q. q \<notin> {ISearchRawData.companyName item @ '' '' @ k | k.
                      k \<in> set (ISearchRawData.incidentKeywords item)}
            \<longrightarrow> js_get (bySearchRawData_step memo item) q = js_get memo q)"
proof -
  let ?Q = "{ISearchRawData.companyName item @ '' '' @ k | k.
               k \<in> set (ISearchRawData.incidentKeywords item)}"
  note keys = bySearchRawData_keys_without_products [OF assms]
  have step_keys: "set (js_keys (bySearchRawData_step memo' item)) = set (js_keys memo') \<union> ?Q"
    for memo' :: "'a by_incident js_object"
    by (simp only: bySearchRawData_step_keys keys)
  have run: "generateSearchStringsBySearchRawData [item] = bySearchRawData_step [] item"
    by (simp add: generateSearchStringsBySearchRawData_def)
  have "set (js_keys ([] :: 'a by_incident js_object)) = {}"
    by (simp add: set_js_keys)
  then have 1: "set (js_keys (generateSearchStringsBySearchRawData [item])) = ?Q"
    by (simp only: run step_keys) simp
  have 3: "js_get (bySearchRawData_step memo item) (ISearchRawData.companyName item @ '' '' @ k)
            = Some (ByIncident (ISearchRawData.companyName item)
                      (ISearchRawData.companyName item @ '' '' @ k)
                      (ISearchRawData.searchOptions item))"
    if "k \<in> set (ISearchRawData.incidentKeywords item)" for k
  proof -
    have "ISearchRawData.companyName item @ '' '' @ k \<in> ?Q" using that by blast
    then have "ISearchRawData.companyName item @ '' '' @ k
                 \<in> fst ` set (bySearchRawData_writes item)"
      by (simp only: keys)
    with bySearchRawData_writes_values show ?thesis
      unfolding bySearchRawData_step_writes
      by (rule js_get_assigned_determined) (rule space_not_proto)
  qed
  have 4: "js_get (bySearchRawData_step memo item) q = js_get memo q" if "q \<notin> ?Q" for q
  proof -
    from that have "q \<notin> fst ` set (bySearchRawData_writes item)" unfolding keys .
    then show ?thesis
      unfolding bySearchRawData_step_writes by (rule js_get_not_assigned)
  qed
  from 1 step_keys 3 4 show ?thesis by blast
qed

theorem by_incident_without_products_witness:
  "ISearchRawData.productNames
     \<lparr>ISearchRawData.companyName = ''Acme'', productNames = [],
      incidentKeywords = [''breach''], searchOptions = ()\<rparr> = []
   \<and> set (js_keys (generateSearchStringsBySearchRawData
         [\<lparr>ISearchRawData.companyName = ''Acme'', productNames = [],
           incidentKeywords = [''breach''], searchOptions = ()\<rparr>]))
       = {''Acme breach''}
   \<and> js_get (bySearchRawData_step []
         \<lparr>ISearchRawData.companyName = ''Acme'', productNames = [],
          incidentKeywords = [''breach''], searchOptions = ()\<rparr>) ''Acme breach''
       = Some (ByIncident ''Acme'' ''Acme breach'' ())"
  using by_incident_without_products
    [of "\<lparr>ISearchRawData.companyName = ''Acme'', productNames = [],
          incidentKeywords = [''breach''], searchOptions = ()\<rparr>" "[]"]
  by simp

lemma firstSearchWords_products:
  "ISearchRawData.productNames item \<noteq> [] \<Longrightarrow>
     firstSearchWords item
       = map (\<lambda>productName. ISearchRawData.companyName item @ '' '' @ productName)
           (ISearchRawData.productNames item)"
  by (simp add: firstSearchWords_def)

lemma mapped_first_words:
  "{f p' k | p' k. p' \<in> set (map h ps) \<and> k \<in> K} = {f (h p) k | p k. p \<in> set ps \<and> k \<in> K}"
  by auto

lemma bySearchRawData_keys_with_products:
  assumes "ISearchRawData.productNames item \<noteq> []"
  shows "fst ` set (bySearchRawData_writes item)
       = {ISearchRawData.companyName item @ '' '' @ p @ '' '' @ k | p k.
            p \<in> set (ISearchRawData.productNames item)
            \<and> k \<in> set (ISearchRawData.incidentKeywords item)}"
  unfolding bySearchRawData_writes_keys firstSearchWords_products [OF assms]
    mapped_first_words
  by (simp only: append_assoc)

text \<open>
  Claim C4. For an investigation record whose \<open>productNames\<close> is not empty, the bare
  company name is not among variant A's first-level search words, and every query string
  produced from the record has the form
  \<open>companyName + " " + productName + " " + incidentKeyword\<close>: run on the record alone
  the result has exactly the keys of this form, and within a longer run the record's step
  adds exactly these keys and leaves every other entry as it was.
\<close>

theorem by_incident_with_products:
  assumes "ISearchRawData.productNames item \<noteq> []"
  shows
    "firstSearchWords item
       = map (\<lambda>productName. ISearchRawData.companyName item @ '' '' @ productName)
           (ISearchRawData.productNames item)
     \<and> ISearchRawData.companyName item \<notin> set (firstSearchWords item)
     \<and> set (js_keys (generateSearchStringsBySearchRawData [item]))
       = {ISearchRawData.companyName item @ '' '' @ p @ '' '' @ k | p k.
            p \<in> set (ISearchRawData.productNames item)
            \<and> k \<in> set (ISearchRawData.incidentKeywords item)}
     \<and> set (js_keys (bySearchRawData_step memo item))
       = set (js_keys memo)
         \<union> {ISearchRawData.companyName item @ '' '' @ p @ '' '' @ k | p k.
              p \<in> set (ISearchRawData.productNames item)
              \<and> k \<in> set (ISearchRawData.incidentKeywords item)}
     \<and> (\<forall>q. q \<notin> {ISearchRawData.companyName item @ '' '' @ p @ '' '' @ k | p k.
                      p \<in> set (ISearchRawData.productNames item)
                      \<and> k \<in> set (ISearchRawData.incidentKeywords item)}
            \<longrightarrow> js_get (bySearchRawData_step memo item) q = js_get memo q)"
proof -
  let ?Q = "{ISearchRawData.companyName item @ '' '' @ p @ '' '' @ k | p k.
               p \<in> set (ISearchRawData.productNames item)
               \<and> k \<in> set (ISearchRawData.incidentKeywords item)}"
  note keys = bySearchRawData_keys_with_products [OF assms]
  note words = firstSearchWords_products [OF assms]
  have bare: "ISearchRawData.companyName item \<notin> set (firstSearchWords item)"
  proof
    assume "ISearchRawData.companyName item \<in> set (firstSearchWords item)"
    then obtain p where "ISearchRawData.companyName item
                           = ISearchRawData.companyName item @ '' '' @ p"
      unfolding words by auto
    then have "length (ISearchRawData.companyName item)
                 = length (ISearchRawData.companyName item @ '' '' @ p)"
      by simp
    then show False by simp
  qed
  have step_keys: "set (js_keys (bySearchRawData_step memo' item)) = set (js_keys memo') \<union> ?Q"
    for memo' :: "'a by_incident js_object"
    by (simp only: bySearchRawData_step_keys keys)
  have run: "generateSearchStringsBySearchRawData [item] = bySearchRawData_step [] item"
    by (simp add: generateSearchStringsBySearchRawData_def)
  have "set (js_keys ([] :: 'a by_incident js_object)) = {}"
    by (simp add: set_js_keys)
  then have 1: "set (js_keys (generateSearchStringsBySearchRawData [item])) = ?Q"
    by (simp only: run step_keys) simp
  have 4: "js_get (bySearchRawData_step memo item) q = js_get memo q" if "q \<notin> ?Q" for q
  proof -
    from that have "q \<notin> fst ` set (bySearchRawData_writes item)" unfolding keys .
    then show ?thesis
      unfolding bySearchRawData_step_writes by (rule js_get_not_assigned)
  qed
  from words bare 1 step_keys 4 show ?thesis by blast
qed

theorem by_incident_with_products_witness:
  "ISearchRawData.productNames
     \<lparr>ISearchRawData.companyName = ''Acme'', productNames = [''Widget''],
      incidentKeywords = [''leak'', ''hack''], searchOptions = ()\<rparr> \<noteq> []
   \<and> ''Acme'' \<notin> set (firstSearchWords
         \<lparr>ISearchRawData.companyName = ''Acme'', productNames = [''Widget''],
          incidentKeywords = [''leak'', ''hack''], searchOptions = ()\<rparr>)
   \<and> set (js_keys (generateSearchStringsBySearchRawData
         [\<lparr>ISearchRawData.companyName = ''Acme'', productNames = [''Widget''],
           incidentKeywords = [''leak'', ''hack''], searchOptions = ()\<rparr>]))
       = {''Acme Widget leak'', ''Acme Widget hack''}"
  using by_incident_with_products
    [of "\<lparr>ISearchRawData.companyName = ''Acme'', productNames = [''Widget''],
          incidentKeywords = [''leak'', ''hack''], searchOptions = ()\<rparr>" "[]"]
  by auto

section \<open>Entries of the generators' results\<close>

lemma js_get_assigned_entry:
  assumes "js_get (js_assign_list [] (concat (map w xs))) k = Some d"
  shows "\<exists>x \<in> set xs. (k, d) \<in> set (w x)"
proof -
  from assms have "(k, d) \<in> set (js_assign_list [] (concat (map w xs)))"
    unfolding js_get_def by (rule map_of_SomeD)
  then have "(k, d) \<in> set (concat (map w xs))"
    using js_assign_list_entries by fastforce
  then show ?thesis by auto
qed

lemma companyOrProducts_writes_values:
  "\<forall>(k, v) \<in> set (companyOrProducts_writes item).
     v = ByCompanyOrProduct (ISearchRawData.companyName item)
           (ISearchRawData.incidentKeywords item) k (ISearchRawData.searchOptions item)"
  by (auto simp: companyOrProducts_writes_def)

lemma companyOrProducts_writes_keys:
  "fst ` set (companyOrProducts_writes item) = set (firstSearchWordsCompanyOrProducts item)"
  by (force simp: companyOrProducts_writes_def)

text \<open>
  Claim C9. Every entry of the result of either generator is consistent: its key is the
  descriptor's \<open>searchString\<close>, and the descriptor's \<open>companyName\<close> (and its other
  fields) are those of an investigation record of the input that produces this key.
\<close>

theorem generated_entries_consistent:
  "(js_get (generateSearchStringsBySearchRawData searchRawData) k = Some d \<longrightarrow>
      by_incident.searchString d = k
      \<and> (\<exists>item \<in> set searchRawData.
            by_incident.companyName d = ISearchRawData.companyName item
            \<and> by_incident.searchOptions d = ISearchRawData.searchOptions item
            \<and> (\<exists>partOfSearch \<in> set (firstSearchWords item).
                 \<exists>incidentKeyword \<in> set (ISearchRawData.incidentKeywords item).
                   k = partOfSearch @ '' '' @ incidentKeyword)))
   \<and> (js_get (generateSearchStringsCompanyOrProductsBySearchRawData searchRawData') k' = Some d'
        \<longrightarrow>
      by_company_or_product.searchString d' = k'
      \<and> (\<exists>item \<in> set searchRawData'.
            by_company_or_product.companyName d' = ISearchRawData.companyName item
            \<and> by_company_or_product.incidentKeywords d' = ISearchRawData.incidentKeywords item
            \<and> by_company_or_product.searchOptions d' = ISearchRawData.searchOptions item
            \<and> k' \<in> set (firstSearchWordsCompanyOrProducts item)))"
proof (intro conjI impI)
  assume "js_get (generateSearchStringsBySearchRawData searchRawData) k = Some d"
  then obtain item where item: "item \<in> set searchRawData"
    and kd: "(k, d) \<in> set (bySearchRawData_writes item)"
    unfolding generateSearchStringsBySearchRawData_writes
    by (blast dest: js_get_assigned_entry)
  from kd bySearchRawData_writes_values [of item]
  have d: "d = ByIncident (ISearchRawData.companyName item) k
                 (ISearchRawData.searchOptions item)"
    by blast
  from kd have "k \<in> fst ` set (bySearchRawData_writes item)" by force
  then obtain p kw where "k = p @ '' '' @ kw" and "p \<in> set (firstSearchWords item)"
    and "kw \<in> set (ISearchRawData.incidentKeywords item)"
    unfolding bySearchRawData_writes_keys by blast
  with item d show "by_incident.searchString d = k" 
    and "\<exists>item \<in> set searchRawData.
            by_incident.companyName d = ISearchRawData.companyName item
            \<and> by_incident.searchOptions d = ISearchRawData.searchOptions item
            \<and> (\<exists>partOfSearch \<in> set (firstSearchWords item).
                 \<exists>incidentKeyword \<in> set (ISearchRawData.incidentKeywords item).
                   k = partOfSearch @ '' '' @ incidentKeyword)"
    by (simp, metis by_incident.sel(1) by_incident.sel(3))
next
  assume "js_get (generateSearchStringsCompanyOrProductsBySearchRawData searchRawData') k'
            = Some d'"
  then obtain item where item: "item \<in> set searchRawData'"
    and kd: "(k', d') \<in> set (companyOrProducts_writes item)"
    unfolding generateSearchStringsCompanyOrProductsBySearchRawData_writes
    by (blast dest: js_get_assigned_entry)
  from kd companyOrProducts_writes_values [of item]
  have d: "d' = ByCompanyOrProduct (ISearchRawData.companyName item)
                  (ISearchRawData.incidentKeywords item) k'
                  (ISearchRawData.searchOptions item)"
    by blast
  from kd have "k' \<in> fst ` set (companyOrProducts_writes item)" by force
  then have k: "k' \<in> set (firstSearchWordsCompanyOrProducts item)"
    unfolding companyOrProducts_writes_keys .
  from d show "by_company_or_product.searchString d' = k'" by simp
  from item d k show "\<exists>item \<in> set searchRawData'.
            by_company_or_product.companyName d' = ISearchRawData.companyName item
            \<and> by_company_or_product.incidentKeywords d' = ISearchRawData.incidentKeywords item
            \<and> by_company_or_product.searchOptions d' = ISearchRawData.searchOptions item
            \<and> k' \<in> set (firstSearchWordsCompanyOrProducts item)"
    by (intro bexI [of _ item]) simp_all
qed

theorem generated_entries_consistent_witness:
  "js_get (generateSearchStringsBySearchRawData
      [\<lparr>ISearchRawData.companyName = ''Acme'', productNames = [''Widget''],
        incidentKeywords = [''leak'', ''hack''], searchOptions = ()\<rparr>]) ''Acme Widget hack''
     = Some (ByIncident ''Acme'' ''Acme Widget hack'' ())
   \<and> by_incident.searchString (ByIncident ''Acme'' ''Acme Widget hack'' ()) = ''Acme Widget hack''
   \<and> js_get (generateSearchStringsCompanyOrProductsBySearchRawData
      [\<lparr>ISearchRawData.companyName = ''Acme'', productNames = [''Widget''],
        incidentKeywords = [''leak'', ''hack''], searchOptions = ()\<rparr>]) ''Widget''
     = Some (ByCompanyOrProduct ''Acme'' [''leak'', ''hack''] ''Widget'' ())
   \<and> by_company_or_product.searchString
        (ByCompanyOrProduct ''Acme'' [''leak'', ''hack''] ''Widget'' ()) = ''Widget''"
  using generated_entries_consistent
    [of "[\<lparr>ISearchRawData.companyName = ''Acme'', productNames = [''Widget''],
           incidentKeywords = [''leak'', ''hack''], searchOptions = ()\<rparr>]"
        "''Acme Widget hack''" "ByIncident ''Acme'' ''Acme Widget hack'' ()"
        "[\<lparr>ISearchRawData.companyName = ''Acme'', productNames = [''Widget''],
           incidentKeywords = [''leak'', ''hack''], searchOptions = ()\<rparr>]"
        "''Widget''" "ByCompanyOrProduct ''Acme'' [''leak'', ''hack''] ''Widget'' ()"]
  by (simp add: generateSearchStringsBySearchRawData_def bySearchRawData_step_def
      firstSearchWords_def generateSearchStringsCompanyOrProductsBySearchRawData_def
      companyOrProducts_step_def firstSearchWordsCompanyOrProducts_def
      js_assign_def js_get_def)

section \<open>Variant B of the generator\<close>

lemma companyOrProducts_first_words:
  "set (firstSearchWordsCompanyOrProducts item)
     = insert (ISearchRawData.companyName item) (set (ISearchRawData.productNames item))"
  by (simp add: firstSearchWordsCompanyOrProducts_def)

text \<open>
  Every first-level word of a record other than the reserved name \<open>__proto__\<close>, the
  company name always among them, is a key of the result of variant B, and the
  descriptor the record's step stores under it holds the record's \<open>companyName\<close>,
  \<open>incidentKeywords\<close> and \<open>searchOptions\<close> and the word itself as \<open>searchString\<close>.
\<close>

lemma companyOrProducts_words_present:
  assumes item: "item \<in> set searchRawData"
    and w: "w = ISearchRawData.companyName item \<or> w \<in> set (ISearchRawData.productNames item)"
    and proto: "w \<noteq> ''__proto__''"
  shows "w \<in> set (js_keys (generateSearchStringsCompanyOrProductsBySearchRawData searchRawData))"
    and "js_get (companyOrProducts_step memo item) w
           = Some (ByCompanyOrProduct (ISearchRawData.companyName item)
                     (ISearchRawData.incidentKeywords item) w
                     (ISearchRawData.searchOptions item))"
proof -
  from w have in_writes: "w \<in> fst ` set (companyOrProducts_writes item)"
    unfolding companyOrProducts_writes_keys companyOrProducts_first_words by blast
  with item have "w \<in> fst ` set (concat (map companyOrProducts_writes searchRawData))"
    by force
  with proto show "w \<in> set (js_keys
      (generateSearchStringsCompanyOrProductsBySearchRawData searchRawData))"
    unfolding generateSearchStringsCompanyOrProductsBySearchRawData_writes
      js_keys_js_assign_list by blast
  from companyOrProducts_writes_values in_writes proto
  show "js_get (companyOrProducts_step memo item) w
           = Some (ByCompanyOrProduct (ISearchRawData.companyName item)
                     (ISearchRawData.incidentKeywords item) w
                     (ISearchRawData.searchOptions item))"
    unfolding companyOrProducts_step_writes by (rule js_get_assigned_determined)
qed

text \<open>
  Claim C5. Variant B is to include the bare company name of every record as a key of
  its output. For a record whose company name is \<open>__proto__\<close> the assignment
  \<open>memo['__proto__'] = {...}\<close> creates no property: the output of the generator has no
  key at all, and the company name is not looked up in it.
\<close>

theorem company_name_proto_lost:
  "js_keys (generateSearchStringsCompanyOrProductsBySearchRawData
      [\<lparr>ISearchRawData.companyName = ''__proto__'', productNames = [],
        incidentKeywords = [''leak''], searchOptions = ()\<rparr>]) = []
   \<and> js_get (generateSearchStringsCompanyOrProductsBySearchRawData
      [\<lparr>ISearchRawData.companyName = ''__proto__'', productNames = [],
        incidentKeywords = [''leak''], searchOptions = ()\<rparr>]) ''__proto__'' = None"
  by (simp add: generateSearchStringsCompanyOrProductsBySearchRawData_def
      companyOrProducts_step_def firstSearchWordsCompanyOrProducts_def
      js_assign_def js_get_def js_keys_def js_entries_def)

section \<open>Grouping credentials by type\<close>

lemma groupBy_type_snoc:
  "groupBy_type (xs @ [c]) =
     (case js_get (groupBy_type xs) (type c) of
        Some members \<Rightarrow> js_define (groupBy_type xs) (type c) (members @ [c])
      | None \<Rightarrow> js_define (groupBy_type xs) (type c) [c])"
  unfolding groupBy_type_def by simp

lemma groupBy_type_get:
  "js_get (groupBy_type xs) t =
     (if filter (\<lambda>c. type c = t) xs = [] then None
      else Some (filter (\<lambda>c. type c = t) xs))"
proof (induction xs arbitrary: t rule: rev_induct)
  case Nil
  then show ?case by (simp add: groupBy_type_def js_get_def)
next
  case (snoc c xs)
  show ?case
  proof (cases "js_get (groupBy_type xs) (type c)")
    case None
    then have "groupBy_type (xs @ [c]) = js_define (groupBy_type xs) (type c) [c]"
      by (simp add: groupBy_type_snoc)
    moreover from None have "filter (\<lambda>c'. type c' = type c) xs = []"
      unfolding snoc.IH by (simp split: if_splits)
    ultimately show ?thesis
      using snoc.IH by (simp add: js_get_def map_of_js_define)
  next
    case (Some members)
    then have "groupBy_type (xs @ [c]) = js_define (groupBy_type xs) (type c) (members @ [c])"
      by (simp add: groupBy_type_snoc)
    moreover from Some have "members = filter (\<lambda>c'. type c' = type c) xs"
      unfolding snoc.IH by (simp split: if_splits)
    ultimately show ?thesis
      using snoc.IH by (simp add: js_get_def map_of_js_define)
  qed
qed

lemma groupBy_type_distinct: "distinct (map fst (groupBy_type xs))"
proof (induction xs rule: rev_induct)
  case Nil
  then show ?case by (simp add: groupBy_type_def)
next
  case (snoc c xs)
  then show ?case
    by (simp add: groupBy_type_snoc distinct_js_define split: option.splits)
qed

lemma in_groupBy_type:
  "(t, g) \<in> set (groupBy_type xs) \<longleftrightarrow> g = filter (\<lambda>c. type c = t) xs \<and> g \<noteq> []"
proof -
  have "(t, g) \<in> set (groupBy_type xs) \<longleftrightarrow> js_get (groupBy_type xs) t = Some g"
    by (simp add: js_get_Some_iff groupBy_type_distinct)
  then show ?thesis by (auto simp: groupBy_type_get)
qed

lemma set_js_values: "set (js_values obj) = snd ` set obj"
  by (simp add: js_values_def set_js_entries)

lemma in_groups:
  "g \<in> set (js_values (groupBy_type xs))
     \<longleftrightarrow> (\<exists>t. g = filter (\<lambda>c. type c = t) xs \<and> g \<noteq> [])"
proof -
  have "g \<in> set (js_values (groupBy_type xs)) \<longleftrightarrow> (\<exists>t. (t, g) \<in> set (groupBy_type xs))"
    by (force simp: set_js_values)
  then show ?thesis by (simp add: in_groupBy_type)
qed

section \<open>Chunks\<close>

lemma ceil_div_upper:
  assumes "0 < n"
  shows "N \<le> ceil_div N n * n"
proof -
  have "(N + n - 1) div n * n + (N + n - 1) mod n = N + n - 1"
    by (rule div_mult_mod_eq)
  moreover have "(N + n - 1) mod n < n" using assms by simp
  ultimately show ?thesis unfolding ceil_div_def by linarith
qed

lemma ceil_div_lower:
  assumes "0 < n" and "0 < N"
  shows "(ceil_div N n - 1) * n < N"
proof -
  have "(N + n - 1) div n * n + (N + n - 1) mod n = N + n - 1"
    by (rule div_mult_mod_eq)
  then have le: "ceil_div N n * n \<le> N + n - 1" unfolding ceil_div_def by linarith
  have "0 < ceil_div N n"
    using assms by (simp add: ceil_div_def div_greater_zero_iff)
  then have "ceil_div N n * n = (ceil_div N n - 1) * n + n"
    by (cases "ceil_div N n") simp_all
  with le assms show ?thesis by linarith
qed

lemma ceil_div_positive: "0 < P \<Longrightarrow> P < N \<Longrightarrow> 0 < ceil_div N P"
  by (simp add: ceil_div_def div_greater_zero_iff)

lemma chunks_le_parts:
  assumes "0 < P" and "P < N"
  shows "ceil_div N (ceil_div N P) \<le> P"
proof -
  let ?n = "ceil_div N P"
  have n: "0 < ?n" using assms by (rule ceil_div_positive)
  have "N \<le> ?n * P" using assms(1) by (rule ceil_div_upper)
  then have "N + ?n - 1 < (P + 1) * ?n" using n by (simp add: mult.commute)
  then have "(N + ?n - 1) div ?n < P + 1" by (rule less_mult_imp_div_less)
  then show ?thesis unfolding ceil_div_def [of N ?n] by simp
qed

lemma concat_slices:
  "concat (map (\<lambda>i. take n (drop (i * n) xs)) [0..<m]) = take (m * n) xs"
proof (induction m)
  case 0
  then show ?case by simp
next
  case (Suc m)
  have "take (m * n + n) xs = take (m * n) xs @ take n (drop (m * n) xs)"
    by (rule take_add)
  with Suc show ?case by (simp add: add.commute)
qed

lemma chunk_nonempty:
  "array \<noteq> [] \<Longrightarrow> 0 < n \<Longrightarrow>
     chunk array n = map (\<lambda>i. take n (drop (i * n) array)) [0..<ceil_div (length array) n]"
  by (simp add: chunk_def ceil_div_def)

lemma length_chunk:
  "array \<noteq> [] \<Longrightarrow> 0 < n \<Longrightarrow> length (chunk array n) = ceil_div (length array) n"
  by (simp add: chunk_nonempty)

lemma concat_chunk:
  assumes "0 < n"
  shows "concat (chunk array n) = array"
proof (cases "array = []")
  case True
  then show ?thesis by (simp add: chunk_def)
next
  case False
  have "length array \<le> ceil_div (length array) n * n"
    using assms by (rule ceil_div_upper)
  then show ?thesis
    using False assms by (simp add: chunk_nonempty concat_slices)
qed

lemma nth_chunk:
  assumes "i < length (chunk array n)"
  shows "chunk array n ! i = take n (drop (i * n) array)"
proof -
  from assms have ne: "array \<noteq> []" and n: "0 < n"
    by (auto simp: chunk_def split: if_splits)
  from assms have "i < ceil_div (length array) n"
    using ne n by (simp add: length_chunk)
  then show ?thesis using ne n by (simp add: chunk_nonempty)
qed

lemma length_nth_chunk:
  assumes "i < length (chunk array n)"
  shows "(Suc i < length (chunk array n) \<longrightarrow> length (chunk array n ! i) = n)
       \<and> 0 < length (chunk array n ! i) \<and> length (chunk array n ! i) \<le> n"
proof -
  from assms have ne: "array \<noteq> []" and n: "0 < n"
    by (auto simp: chunk_def split: if_splits)
  let ?m = "ceil_div (length array) n"
  have m: "length (chunk array n) = ?m" using ne n by (rule length_chunk)
  have low: "(?m - 1) * n < length array"
    using n ne by (intro ceil_div_lower) simp_all
  have len: "length (chunk array n ! i) = min n (length array - i * n)"
    using assms by (simp add: nth_chunk min.commute)
  have "i \<le> ?m - 1" using assms m by simp
  then have "i * n \<le> (?m - 1) * n" by (rule mult_le_mono1)
  then have pos: "i * n < length array" using low by (rule le_less_trans)
  have full: "length (chunk array n ! i) = n" if "Suc i < length (chunk array n)"
  proof -
    from that m have "Suc i \<le> ?m - 1" by simp
    then have "Suc i * n \<le> (?m - 1) * n" by (rule mult_le_mono1)
    then have "Suc i * n < length array" using low by (rule le_less_trans)
    then have "i * n + n < length array" by (simp add: add.commute)
    then show ?thesis by (simp add: len)
  qed
  from pos n full show ?thesis by (simp add: len)
qed

section \<open>The partitioner as a list of assignments\<close>

lemma byBrowserContexts_step_writes:
  "byBrowserContexts_step searchStringsKeys memo g
     = js_assign_list memo (byBrowserContexts_writes searchStringsKeys g)"
  unfolding byBrowserContexts_step_def byBrowserContexts_writes_def
  by (rule foldl_js_assign_pairs)

lemma getSearchStringsByBrowserContexts_writes:
  "getSearchStringsByBrowserContexts userCredentials searchStrings
     = js_assign_list []
         (concat (map (byBrowserContexts_writes (js_keys searchStrings))
                    (js_values (groupBy_type userCredentials))))"
proof -
  have eq: "byBrowserContexts_step (js_keys searchStrings)
          = (\<lambda>memo g. js_assign_list memo (byBrowserContexts_writes (js_keys searchStrings) g))"
    by (intro ext) (rule byBrowserContexts_step_writes)
  show ?thesis
    unfolding getSearchStringsByBrowserContexts_def eq
    by (rule foldl_js_assign_list_concat)
qed

lemma in_byBrowserContexts_writes:
  "(k, v) \<in> set (byBrowserContexts_writes searchStringsKeys g) \<longleftrightarrow>
     (\<exists>i < length g. k = getKeyByUserCredential (g ! i)
        \<and> v = js_index (searchStringsByChanks (length g) searchStringsKeys) i)"
proof
  assume "(k, v) \<in> set (byBrowserContexts_writes searchStringsKeys g)"
  then obtain i c where "(i, c) \<in> set (enumerate 0 g)"
    and "k = getKeyByUserCredential c"
    and "v = js_index (searchStringsByChanks (length g) searchStringsKeys) i"
    unfolding byBrowserContexts_writes_def by auto
  then show "\<exists>i < length g. k = getKeyByUserCredential (g ! i)
        \<and> v = js_index (searchStringsByChanks (length g) searchStringsKeys) i"
    by (auto simp: in_set_enumerate_eq)
next
  assume "\<exists>i < length g. k = getKeyByUserCredential (g ! i)
        \<and> v = js_index (searchStringsByChanks (length g) searchStringsKeys) i"
  then obtain i where i: "i < length g" and k: "k = getKeyByUserCredential (g ! i)"
    and v: "v = js_index (searchStringsByChanks (length g) searchStringsKeys) i"
    by blast
  from i have "(i, g ! i) \<in> set (enumerate 0 g)"
    by (simp add: in_set_enumerate_eq)
  then have "(\<lambda>(index, userCredentialByType).
            (getKeyByUserCredential userCredentialByType,
             js_index (searchStringsByChanks (length g) searchStringsKeys) index)) (i, g ! i)
          \<in> set (byBrowserContexts_writes searchStringsKeys g)"
    unfolding byBrowserContexts_writes_def set_map by (rule imageI)
  then show "(k, v) \<in> set (byBrowserContexts_writes searchStringsKeys g)"
    using k v by simp
qed

lemma map_of_unique_value:
  assumes "(k, v0) \<in> set ws" and "\<forall>v. (k, v) \<in> set ws \<longrightarrow> v = v0"
  shows "map_of ws k = Some v0"
proof -
  from assms(1) have "k \<in> fst ` set ws" by force
  then obtain v where v: "map_of ws k = Some v"
    by (cases "map_of ws k") (auto simp: map_of_eq_None_iff)
  then have "(k, v) \<in> set ws" by (rule map_of_SomeD)
  with assms(2) have "v = v0" by blast
  with v show ?thesis by simp
qed

lemma partition_lookup:
  assumes dist: "distinct (map getKeyByUserCredential userCredentials)"
    and i: "i < length (filter (\<lambda>c. type c = t) userCredentials)"
  shows "js_get (getSearchStringsByBrowserContexts userCredentials searchStrings)
           (getKeyByUserCredential (filter (\<lambda>c. type c = t) userCredentials ! i))
         = Some (js_index
                   (searchStringsByChanks
                      (length (filter (\<lambda>c. type c = t) userCredentials))
                      (js_keys searchStrings)) i)"
proof -
  let ?group = "filter (\<lambda>c. type c = t) userCredentials"
  let ?keys = "js_keys searchStrings"
  let ?W = "concat (map (byBrowserContexts_writes ?keys)
                      (js_values (groupBy_type userCredentials)))"
  let ?k = "getKeyByUserCredential (?group ! i)"
  let ?v = "js_index (searchStringsByChanks (length ?group) ?keys) i"
  have inj: "inj_on getKeyByUserCredential (set userCredentials)"
    and dcreds: "distinct userCredentials"
    using dist by (simp_all add: distinct_map)
  have dgroup: "distinct ?group" using dcreds by simp
  have ci: "?group ! i \<in> set ?group" using i by (rule nth_mem)
  then have ci_creds: "?group ! i \<in> set userCredentials" and ci_type: "type (?group ! i) = t"
    by simp_all
  have "?group \<noteq> []" using i by auto
  then have gin: "?group \<in> set (js_values (groupBy_type userCredentials))"
    unfolding in_groups by blast
  have "(?k, ?v) \<in> set (byBrowserContexts_writes ?keys ?group)"
    unfolding in_byBrowserContexts_writes using i by blast
  with gin have present: "(?k, ?v) \<in> set ?W" by auto
  have unique: "v = ?v" if "(?k, v) \<in> set ?W" for v
  proof -
    from that obtain g where g: "g \<in> set (js_values (groupBy_type userCredentials))"
      and kv: "(?k, v) \<in> set (byBrowserContexts_writes ?keys g)"
      by auto
    from g obtain t' where g_def: "g = filter (\<lambda>c. type c = t') userCredentials"
      unfolding in_groups by blast
    from kv obtain j where j: "j < length g"
      and kj: "?k = getKeyByUserCredential (g ! j)"
      and vj: "v = js_index (searchStringsByChanks (length g) ?keys) j"
      unfolding in_byBrowserContexts_writes by blast
    from j have "g ! j \<in> set g" by (rule nth_mem)
    then have cj_creds: "g ! j \<in> set userCredentials" and cj_type: "type (g ! j) = t'"
      unfolding g_def by simp_all
    from inj kj ci_creds cj_creds have same: "?group ! i = g ! j"
      by (rule inj_onD)
    with ci_type cj_type have "t' = t" by simp
    then have gg: "g = ?group" unfolding g_def by simp
    with same j i dgroup have "i = j"
      by (simp add: nth_eq_iff_index_eq)
    with vj gg show ?thesis by simp
  qed
  have "(?k, ?v) \<in> set (rev ?W)" using present by simp
  moreover have "\<forall>v. (?k, v) \<in> set (rev ?W) \<longrightarrow> v = ?v" using unique by simp
  ultimately have "map_of (rev ?W) ?k = Some ?v" by (rule map_of_unique_value)
  then show ?thesis
    unfolding getSearchStringsByBrowserContexts_writes
    by (simp add: js_get_js_assign_list key_not_proto)
qed

section \<open>Work partitioner\<close>

lemma shares_padded:
  assumes "length cs \<le> P"
  shows "map (\<lambda>i. case js_index cs i of Some share \<Rightarrow> share | None \<Rightarrow> []) [0..<P]
       = cs @ replicate (P - length cs) []"
proof (rule nth_equalityI)
  show "length (map (\<lambda>i. case js_index cs i of Some share \<Rightarrow> share | None \<Rightarrow> []) [0..<P])
      = length (cs @ replicate (P - length cs) [])"
    using assms by simp
next
  fix i
  assume "i < length (map (\<lambda>i. case js_index cs i of Some share \<Rightarrow> share | None \<Rightarrow> [])
                        [0..<P])"
  then have i: "i < P" by simp
  then show "map (\<lambda>i. case js_index cs i of Some share \<Rightarrow> share | None \<Rightarrow> []) [0..<P] ! i
           = (cs @ replicate (P - length cs) []) ! i"
    by (simp add: js_index_def nth_append)
qed

lemma map_by_index: "map f xs = map (\<lambda>i. f (xs ! i)) [0..<length xs]"
  by (rule nth_equalityI) simp_all

text \<open>
  Claim C2. In a registry whose identity keys are pairwise distinct, for a platform
  group of \<open>P\<close> credentials and a key list of \<open>N\<close> keys with \<open>P < N\<close>: the key list is
  split into contiguous chunks of size \<open>ceil (N / P)\<close>, the last one possibly shorter
  but not empty; there are at most \<open>P\<close> chunks; the \<open>i\<close>-th credential of the group, in
  the group's order in the list, is assigned chunk \<open>i\<close> (and nothing when there is no
  chunk \<open>i\<close>); and the shares assigned to the group, concatenated in the group's order,
  are the full ordered key list.
\<close>

theorem contiguous_chunks_assigned:
  assumes dist: "distinct (map getKeyByUserCredential userCredentials)"
    and P: "0 < length (filter (\<lambda>c. type c = t) userCredentials)"
    and PN: "length (filter (\<lambda>c. type c = t) userCredentials) < length (js_keys searchStrings)"
  shows
    "let userCredentialsByType = filter (\<lambda>c. type c = t) userCredentials;
         searchStringsKeys = js_keys searchStrings;
         n = ceil_div (length searchStringsKeys) (length userCredentialsByType);
         chunks = chunk searchStringsKeys n;
         result = getSearchStringsByBrowserContexts userCredentials searchStrings
     in concat chunks = searchStringsKeys
      \<and> length chunks \<le> length userCredentialsByType
      \<and> (\<forall>i < length chunks.
            chunks ! i = take n (drop (i * n) searchStringsKeys)
            \<and> (Suc i < length chunks \<longrightarrow> length (chunks ! i) = n)
            \<and> 0 < length (chunks ! i) \<and> length (chunks ! i) \<le> n)
      \<and> (\<forall>i < length userCredentialsByType.
            js_get result (getKeyByUserCredential (userCredentialsByType ! i))
              = Some (js_index chunks i))
      \<and> concat (map (\<lambda>c. case js_get result (getKeyByUserCredential c) of
                            Some (Some share) \<Rightarrow> share | _ \<Rightarrow> [])
                  userCredentialsByType)
          = searchStringsKeys"
proof -
  let ?group = "filter (\<lambda>c. type c = t) userCredentials"
  let ?keys = "js_keys searchStrings"
  let ?n = "ceil_div (length ?keys) (length ?group)"
  let ?chunks = "chunk ?keys ?n"
  let ?result = "getSearchStringsByBrowserContexts userCredentials searchStrings"
  let ?share = "\<lambda>c. case js_get ?result (getKeyByUserCredential c) of
                       Some (Some share) \<Rightarrow> share | _ \<Rightarrow> []"
  have n: "0 < ?n" using P PN by (rule ceil_div_positive)
  have ne: "?keys \<noteq> []" using PN by auto
  have 1: "concat ?chunks = ?keys" using n by (rule concat_chunk)
  have "length ?chunks = ceil_div (length ?keys) ?n" using ne n by (rule length_chunk)
  also have "\<dots> \<le> length ?group" using P PN by (rule chunks_le_parts)
  finally have 2: "length ?chunks \<le> length ?group" .
  have 3: "?chunks ! i = take ?n (drop (i * ?n) ?keys)
            \<and> (Suc i < length ?chunks \<longrightarrow> length (?chunks ! i) = ?n)
            \<and> 0 < length (?chunks ! i) \<and> length (?chunks ! i) \<le> ?n"
    if "i < length ?chunks" for i
    using nth_chunk [OF that] length_nth_chunk [OF that] by blast
  have by_chunks: "searchStringsByChanks (length ?group) ?keys = ?chunks"
    using PN by (simp add: searchStringsByChanks_def)
  have 4: "js_get ?result (getKeyByUserCredential (?group ! i)) = Some (js_index ?chunks i)"
    if "i < length ?group" for i
    using partition_lookup [OF dist that, of searchStrings] by (simp only: by_chunks)
  have "map ?share ?group = map (\<lambda>i. ?share (?group ! i)) [0..<length ?group]"
    by (rule map_by_index)
  also have "\<dots> = map (\<lambda>i. case js_index ?chunks i of Some share \<Rightarrow> share | None \<Rightarrow> [])
                      [0..<length ?group]"
    by (rule map_cong) (simp_all add: 4)
  also have "\<dots> = ?chunks @ replicate (length ?group - length ?chunks) []"
    using 2 by (rule shares_padded)
  finally have "concat (map ?share ?group) = concat ?chunks" by simp
  with 1 have 5: "concat (map ?share ?group) = ?keys" by simp
  from 1 2 3 4 5 show ?thesis unfolding Let_def by blast
qed

theorem contiguous_chunks_assigned_witness:
  "distinct (map getKeyByUserCredential
      [\<lparr>type = ''facebook'', username = ''ann'', password = ''p''\<rparr>,
       \<lparr>type = ''facebook'', username = ''bob'', password = ''q''\<rparr>])
   \<and> 0 < length (filter (\<lambda>c. type c = ''facebook'')
      [\<lparr>type = ''facebook'', username = ''ann'', password = ''p''\<rparr>,
       \<lparr>type = ''facebook'', username = ''bob'', password = ''q''\<rparr>])
   \<and> length (filter (\<lambda>c. type c = ''facebook'')
      [\<lparr>type = ''facebook'', username = ''ann'', password = ''p''\<rparr>,
       \<lparr>type = ''facebook'', username = ''bob'', password = ''q''\<rparr>])
     < length (js_keys [(''k1'', ()), (''k2'', ()), (''k3'', ()), (''k4'', ()), (''k5'', ())])
   \<and> js_get (getSearchStringsByBrowserContexts
         [\<lparr>type = ''facebook'', username = ''ann'', password = ''p''\<rparr>,
          \<lparr>type = ''facebook'', username = ''bob'', password = ''q''\<rparr>]
         [(''k1'', ()), (''k2'', ()), (''k3'', ()), (''k4'', ()), (''k5'', ())])
       ''facebook-ann'' = Some (Some [''k1'', ''k2'', ''k3''])
   \<and> js_get (getSearchStringsByBrowserContexts
         [\<lparr>type = ''facebook'', username = ''ann'', password = ''p''\<rparr>,
          \<lparr>type = ''facebook'', username = ''bob'', password = ''q''\<rparr>]
         [(''k1'', ()), (''k2'', ()), (''k3'', ()), (''k4'', ()), (''k5'', ())])
       ''facebook-bob'' = Some (Some [''k4'', ''k5''])"
proof -
  let ?creds = "[\<lparr>type = ''facebook'', username = ''ann'', password = ''p''\<rparr>,
                 \<lparr>type = ''facebook'', username = ''bob'', password = ''q''\<rparr>]"
  let ?ss = "[(''k1'', ()), (''k2'', ()), (''k3'', ()), (''k4'', ()), (''k5'', ())]"
  let ?group = "filter (\<lambda>c. type c = ''facebook'') ?creds"
  have keys: "js_keys ?ss = [''k1'', ''k2'', ''k3'', ''k4'', ''k5'']" by code_simp
  have group: "?group = ?creds" by simp
  have h1: "distinct (map getKeyByUserCredential ?creds)"
    by (simp add: getKeyByUserCredential_def)
  have h2: "0 < length ?group" by simp
  have h3: "length ?group < length (js_keys ?ss)" unfolding keys by simp
  have chunks: "chunk (js_keys ?ss) (ceil_div (length (js_keys ?ss)) (length ?group))
                  = [[''k1'', ''k2'', ''k3''], [''k4'', ''k5'']]"
    by code_simp
  from contiguous_chunks_assigned [OF h1 h2 h3]
  have all: "\<forall>i < length ?group.
          js_get (getSearchStringsByBrowserContexts ?creds ?ss)
            (getKeyByUserCredential (?group ! i))
          = Some (js_index [[''k1'', ''k2'', ''k3''], [''k4'', ''k5'']] i)"
    unfolding Let_def chunks by blast
  have "js_get (getSearchStringsByBrowserContexts ?creds ?ss)
               (getKeyByUserCredential (?group ! 0))
             = Some (js_index [[''k1'', ''k2'', ''k3''], [''k4'', ''k5'']] 0)"
    and "js_get (getSearchStringsByBrowserContexts ?creds ?ss)
               (getKeyByUserCredential (?group ! 1))
             = Some (js_index [[''k1'', ''k2'', ''k3''], [''k4'', ''k5'']] 1)"
    using all [rule_format, of 0] all [rule_format, of 1] by simp_all
  then show ?thesis
    using h1 h2 h3 by (simp add: getKeyByUserCredential_def js_index_def)
qed

text \<open>
  Claim C1, as stated, fails: with two facebook credentials and a single key
  (\<open>P = 2 \<ge> N = 1\<close>) the only chunk is the whole key list, the second credential reads
  \<open>searchStringsByChanks[1]\<close>, which is \<open>undefined\<close>, and its share is not the key list.
\<close>

theorem every_credential_whole_list_counterexample:
  "length (js_keys (generateSearchStringsBySearchRawData
       [\<lparr>ISearchRawData.companyName = ''Acme'', productNames = [],
         incidentKeywords = [''breach''], searchOptions = ()\<rparr>]))
     \<le> length
          [\<lparr>type = ''facebook'', username = ''ann'', password = ''p''\<rparr>,
           \<lparr>type = ''facebook'', username = ''bob'', password = ''q''\<rparr>]
   \<and> js_get (getSearchStringsByBrowserContexts
         [\<lparr>type = ''facebook'', username = ''ann'', password = ''p''\<rparr>,
          \<lparr>type = ''facebook'', username = ''bob'', password = ''q''\<rparr>]
         (generateSearchStringsBySearchRawData
            [\<lparr>ISearchRawData.companyName = ''Acme'', productNames = [],
              incidentKeywords = [''breach''], searchOptions = ()\<rparr>]))
       (getKeyByUserCredential \<lparr>type = ''facebook'', username = ''bob'', password = ''q''\<rparr>)
     = Some None
   \<and> js_get (getSearchStringsByBrowserContexts
         [\<lparr>type = ''facebook'', username = ''ann'', password = ''p''\<rparr>,
          \<lparr>type = ''facebook'', username = ''bob'', password = ''q''\<rparr>]
         (generateSearchStringsBySearchRawData
            [\<lparr>ISearchRawData.companyName = ''Acme'', productNames = [],
              incidentKeywords = [''breach''], searchOptions = ()\<rparr>]))
       (getKeyByUserCredential \<lparr>type = ''facebook'', username = ''bob'', password = ''q''\<rparr>)
     \<noteq> Some (Some (js_keys (generateSearchStringsBySearchRawData
         [\<lparr>ISearchRawData.companyName = ''Acme'', productNames = [],
           incidentKeywords = [''breach''], searchOptions = ()\<rparr>])))"
  by code_simp

text \<open>
  Claim C1, amended. In a registry whose identity keys are pairwise distinct, for a
  platform group of \<open>P\<close> credentials and a key list of \<open>N\<close> keys with \<open>P \<ge> N\<close>, the key
  list is not split, and the first credential of the group is assigned the entire
  unabridged ordered key list.
\<close>

theorem first_credential_whole_list:
  assumes dist: "distinct (map getKeyByUserCredential userCredentials)"
    and ne: "filter (\<lambda>c. type c = t) userCredentials \<noteq> []"
    and PN: "length (js_keys searchStrings) \<le> length (filter (\<lambda>c. type c = t) userCredentials)"
  shows "searchStringsByChanks (length (filter (\<lambda>c. type c = t) userCredentials))
           (js_keys searchStrings) = [js_keys searchStrings]
       \<and> js_get (getSearchStringsByBrowserContexts userCredentials searchStrings)
           (getKeyByUserCredential (hd (filter (\<lambda>c. type c = t) userCredentials)))
         = Some (Some (js_keys searchStrings))"
proof -
  let ?group = "filter (\<lambda>c. type c = t) userCredentials"
  have whole: "searchStringsByChanks (length ?group) (js_keys searchStrings)
                 = [js_keys searchStrings]"
    using PN by (simp add: searchStringsByChanks_def)
  from ne have 0: "0 < length ?group" by simp
  from ne have hd: "hd ?group = ?group ! 0" by (rule hd_conv_nth)
  have "js_get (getSearchStringsByBrowserContexts userCredentials searchStrings)
          (getKeyByUserCredential (?group ! 0))
        = Some (js_index [js_keys searchStrings] 0)"
    using partition_lookup [OF dist 0, of searchStrings] by (simp only: whole)
  then show ?thesis unfolding hd using whole by (simp add: js_index_def)
qed

theorem first_credential_whole_list_witness:
  "distinct (map getKeyByUserCredential
      [\<lparr>type = ''facebook'', username = ''ann'', password = ''p''\<rparr>,
       \<lparr>type = ''facebook'', username = ''bob'', password = ''q''\<rparr>])
   \<and> filter (\<lambda>c. type c = ''facebook'')
      [\<lparr>type = ''facebook'', username = ''ann'', password = ''p''\<rparr>,
       \<lparr>type = ''facebook'', username = ''bob'', password = ''q''\<rparr>] \<noteq> []
   \<and> length (js_keys [(''Acme breach'', ())])
     \<le> length (filter (\<lambda>c. type c = ''facebook'')
          [\<lparr>type = ''facebook'', username = ''ann'', password = ''p''\<rparr>,
           \<lparr>type = ''facebook'', username = ''bob'', password = ''q''\<rparr>])
   \<and> js_get (getSearchStringsByBrowserContexts
         [\<lparr>type = ''facebook'', username = ''ann'', password = ''p''\<rparr>,
          \<lparr>type = ''facebook'', username = ''bob'', password = ''q''\<rparr>]
         [(''Acme breach'', ())])
       ''facebook-ann'' = Some (Some [''Acme breach''])"
proof -
  let ?creds = "[\<lparr>type = ''facebook'', username = ''ann'', password = ''p''\<rparr>,
                 \<lparr>type = ''facebook'', username = ''bob'', password = ''q''\<rparr>]"
  let ?ss = "[(''Acme breach'', ())]"
  have keys: "js_keys ?ss = [''Acme breach'']" by code_simp
  have h1: "distinct (map getKeyByUserCredential ?creds)"
    by (simp add: getKeyByUserCredential_def)
  have h2: "filter (\<lambda>c. type c = ''facebook'') ?creds \<noteq> []" by simp
  have h3: "length (js_keys ?ss) \<le> length (filter (\<lambda>c. type c = ''facebook'') ?creds)"
    unfolding keys by simp
  from first_credential_whole_list [OF h1 h2 h3] h1 h2 h3 show ?thesis
    by (simp add: keys getKeyByUserCredential_def)
qed

end
